theory Spec2Isabelle
  imports Main "HOL-Library.FSet"
begin

section \<open>The board\<close>

text \<open>
  \<^verbatim>\<open>struct Board { char cell[BOARD_SIZE][BOARD_SIZE]; ... }\<close>: the grid is a list of rows,
  each row a string, indexed \<open>[y][x]\<close>. The C++ array type fixes both dimensions at
  \<open>BOARD_SIZE\<close>; \<open>wf_board\<close> states that for the list model.
\<close>

definition BOARD_SIZE :: int where
  "BOARD_SIZE = 6"

definition BOARD_EXIT_Y :: int where
  "BOARD_EXIT_Y = 2"

definition DEBUG_PROGRESS_OUTPUT :: bool where
  "DEBUG_PROGRESS_OUTPUT = False"

type_synonym Board = "string list"

definition wf_board :: "Board \<Rightarrow> bool" where
  "wf_board b = (length b = nat BOARD_SIZE \<and> list_all (\<lambda>r. length r = nat BOARD_SIZE) b)"

text \<open>
  Every \<^verbatim>\<open>assert\<close> of the source is a way for the run to stop; the constructor says which
  one fired. \<open>BadIndex\<close> stands for an unchecked \<^verbatim>\<open>state_list[i]\<close> outside the vector.
\<close>

datatype assertion = Cell_bounds | SetCell_bounds | Print_unreachable | List_set_size | Initial_size

section \<open>Search state\<close>

text \<open>
  The globals \<^verbatim>\<open>state_list\<close> and \<^verbatim>\<open>states_in_list\<close>, and what has been printed so far.
  \<^verbatim>\<open>std::set<Board>\<close> compares boards by \<^verbatim>\<open>memcmp\<close> of the cells, so two boards are the same
  element exactly when they are equal grids.
\<close>

record globals =
  state_list :: "(Board \<times> int) list"
  states_in_list :: "Board fset"
  stdout :: string

datatype halt = AssertFailed assertion | BadIndex | Exited int globals

type_synonym 'a result = "halt + 'a"

definition bind :: "'a result \<Rightarrow> ('a \<Rightarrow> 'b result) \<Rightarrow> 'b result" where
  "bind m f = (case m of Inl h \<Rightarrow> Inl h | Inr v \<Rightarrow> f v)"

definition in_range :: "int \<Rightarrow> int \<Rightarrow> bool" where
  "in_range y x = (x \<ge> 0 \<and> x < BOARD_SIZE \<and> y \<ge> 0 \<and> y < BOARD_SIZE)"

definition Cell :: "Board \<Rightarrow> int \<Rightarrow> int \<Rightarrow> char result" where
  "Cell b y x =
     (if x \<ge> 0 \<and> x < BOARD_SIZE \<and> y \<ge> 0 \<and> y < BOARD_SIZE
      then Inr (b ! nat y ! nat x)
      else Inl (AssertFailed Cell_bounds))"

definition CellSafe :: "Board \<Rightarrow> int \<Rightarrow> int \<Rightarrow> char" where
  "CellSafe b y x =
     (if x < 0 \<or> x \<ge> BOARD_SIZE \<or> y < 0 \<or> y \<ge> BOARD_SIZE
      then CHR 0x00
      else b ! nat y ! nat x)"

definition SetCell :: "Board \<Rightarrow> int \<Rightarrow> int \<Rightarrow> char \<Rightarrow> Board result" where
  "SetCell b y x c =
     (if x \<ge> 0 \<and> x < BOARD_SIZE \<and> y \<ge> 0 \<and> y < BOARD_SIZE
      then Inr (b[nat y := (b ! nat y)[nat x := c]])
      else Inl (AssertFailed SetCell_bounds))"

text \<open>
  \<^verbatim>\<open>CheckAddState\<close>: \<^verbatim>\<open>DEBUG_PROGRESS_OUTPUT\<close> is the constant \<^verbatim>\<open>false\<close>, so the two
  debugging blocks never run; the rejected path returns with nothing changed.
\<close>

definition CheckAddState :: "Board \<Rightarrow> int \<Rightarrow> globals \<Rightarrow> globals result" where
  "CheckAddState state from g =
     (if state |\<in>| states_in_list g then Inr g
      else
        let g' = g\<lparr>states_in_list := finsert state (states_in_list g),
                   state_list := state_list g @ [(state, from)]\<rparr>
        in if length (state_list g') = fcard (states_in_list g') then Inr g'
           else Inl (AssertFailed List_set_size))"


section \<open>Runs that may stop or not return\<close>

text \<open>
  A computation either does not return (\<open>None\<close>), stops the process (\<open>Some (Inl h)\<close>), or
  returns a value.
\<close>

type_synonym 'a run = "'a result option"

definition bind_run :: "'a run \<Rightarrow> ('a \<Rightarrow> 'b run) \<Rightarrow> 'b run" where
  "bind_run m f = (case m of None \<Rightarrow> None | Some (Inl h) \<Rightarrow> Some (Inl h) | Some (Inr v) \<Rightarrow> f v)"

lemma bind_cong [fundef_cong]:
  "m = m' \<Longrightarrow> (\<And>v. m' = Inr v \<Longrightarrow> f v = f' v) \<Longrightarrow> bind m f = bind m' f'"
  by (auto simp: bind_def split: sum.splits)

lemma bind_run_cong [fundef_cong]:
  "m = m' \<Longrightarrow> (\<And>v. m' = Some (Inr v) \<Longrightarrow> f v = f' v) \<Longrightarrow> bind_run m f = bind_run m' f'"
  by (auto simp: bind_run_def split: option.splits sum.splits)

lemma bind_run_mono [partial_function_mono]:
  assumes mf: "mono_option B" and mg: "\<And>y. mono_option (\<lambda>f. C y f)"
  shows "mono_option (\<lambda>f. bind_run (B f) (\<lambda>y. C y f))"
proof -
  have eq: "\<And>f. bind_run (B f) (\<lambda>y. C y f) =
      Option.bind (B f) (\<lambda>r. case r of Inl h \<Rightarrow> Some (Inl h) | Inr v \<Rightarrow> C v f)"
    by (auto simp: bind_run_def split: option.splits sum.splits)
  have "mono_option (\<lambda>f. Option.bind (B f) (\<lambda>r. case r of Inl h \<Rightarrow> Some (Inl h) | Inr v \<Rightarrow> C v f))"
  proof (rule bind_mono [OF mf])
    fix r
    show "mono_option (\<lambda>f. case r of Inl h \<Rightarrow> Some (Inl h) | Inr v \<Rightarrow> C v f)"
      by (cases r) (simp_all add: mg option.const_mono)
  qed
  then show ?thesis by (simp only: eq)
qed

section \<open>Printing\<close>

definition printf :: "string \<Rightarrow> globals \<Rightarrow> globals" where
  "printf text g = g\<lparr>stdout := stdout g @ text\<rparr>"

text \<open>The \<^verbatim>\<open>%d\<close> conversion of \<^verbatim>\<open>printf\<close>: decimal digits, a minus sign for a negative number.\<close>

function string_of_nat :: "nat \<Rightarrow> string" where
  "string_of_nat n =
     (if n < 10 then [char_of (48 + n)]
      else string_of_nat (n div 10) @ [char_of (48 + n mod 10)])"
  by pat_completeness auto
termination
  by (relation "measure (\<lambda>n. n)") auto

declare string_of_nat.simps [simp del]

definition string_of_int :: "int \<Rightarrow> string" where
  "string_of_int d = (if d < 0 then CHR ''-'' # string_of_nat (nat (- d)) else string_of_nat (nat d))"

text \<open>
  \<^verbatim>\<open>Board::Print\<close>. The arrow for a cell that is empty now and filled in the next board is
  chosen from the four neighbours; when no neighbour holds the arriving car the source
  runs into \<^verbatim>\<open>assert( false )\<close>.
\<close>

definition arrow :: "Board \<Rightarrow> int \<Rightarrow> int \<Rightarrow> char \<Rightarrow> char result" where
  "arrow this y x n =
     (if CellSafe this y (x - 1) = n then Inr CHR ''>''
      else if CellSafe this y (x + 1) = n then Inr CHR ''<''
      else if CellSafe this (y - 1) x = n then Inr CHR ''v''
      else if CellSafe this (y + 1) x = n then Inr CHR ''^''
      else Inl (AssertFailed Print_unreachable))"

text \<open>The loop that computes \<^verbatim>\<open>bCarLeftBoard\<close>, from \<^verbatim>\<open>xx\<close> on.\<close>

function car_left_board :: "Board \<Rightarrow> Board \<Rightarrow> int \<Rightarrow> char \<Rightarrow> int \<Rightarrow> bool result" where
  "car_left_board this next y c xx =
     (if xx < BOARD_SIZE then
        bind (Cell next y xx) (\<lambda>n'.
          if n' \<noteq> CHR '' '' then Inr False
          else bind (Cell this y xx) (\<lambda>c'.
            if c' \<noteq> CHR '' '' \<and> c' \<noteq> c then Inr False
            else car_left_board this next y c (xx + 1)))
      else Inr True)"
  by pat_completeness auto
termination
  by (relation "measure (\<lambda>(this, next, y, c, xx). nat (BOARD_SIZE - xx))") auto

declare car_left_board.simps [simp del]

text \<open>\<^verbatim>\<open>while ( x < BOARD_SIZE && c == Cell( y, x ) ) { printf( "%c", c ); ++x; }\<close>\<close>

function print_car :: "Board \<Rightarrow> int \<Rightarrow> char \<Rightarrow> int \<Rightarrow> string \<Rightarrow> (int \<times> string) result" where
  "print_car this y c x out =
     (if x < BOARD_SIZE then
        bind (Cell this y x) (\<lambda>c'.
          if c = c' then print_car this y c (x + 1) (out @ [c]) else Inr (x, out))
      else Inr (x, out))"
  by pat_completeness auto
termination
  by (relation "measure (\<lambda>(this, y, c, x, out). nat (BOARD_SIZE - x))") auto

declare print_car.simps [simp del]

text \<open>\<^verbatim>\<open>while ( x < BOARD_SIZE+1 ) { printf( ">" ); ++x; }\<close>\<close>

function print_exit :: "int \<Rightarrow> string \<Rightarrow> string" where
  "print_exit x out = (if x < BOARD_SIZE + 1 then print_exit (x + 1) (out @ ''>'') else out)"
  by pat_completeness auto
termination
  by (relation "measure (\<lambda>(x, out). nat (BOARD_SIZE + 1 - x))") auto

declare print_exit.simps [simp del]

text \<open>
  The loop over \<open>x\<close> of one row; \<open>out\<close> is what has been printed. The \<^verbatim>\<open>break\<close> after a
  departing car leaves the loop without printing the current cell again.
\<close>

function Print_row :: "Board \<Rightarrow> Board \<Rightarrow> int \<Rightarrow> int \<Rightarrow> string \<Rightarrow> string result" where
  "Print_row this next y x out =
     (if x < BOARD_SIZE then
        bind (Cell this y x) (\<lambda>c.
        bind (Cell next y x) (\<lambda>n.
          if c \<noteq> n then
            if c = CHR '' '' then
              bind (arrow this y x n) (\<lambda>c. Print_row this next y (x + 1) (out @ [c]))
            else if n = CHR '' '' \<and> y = BOARD_EXIT_Y \<and> x < BOARD_SIZE - 1 then
              bind (car_left_board this next y c (x + 1)) (\<lambda>bCarLeftBoard.
                if bCarLeftBoard then
                  bind (print_car this y c x out) (\<lambda>(x, out). Inr (print_exit x out))
                else Print_row this next y (x + 1) (out @ [c]))
            else Print_row this next y (x + 1) (out @ [c])
          else Print_row this next y (x + 1) (out @ [c])))
      else Inr out)"
  by pat_completeness auto
termination
  by (relation "measure (\<lambda>(this, next, y, x, out). nat (BOARD_SIZE - x))") auto

declare Print_row.simps [simp del]

function Print_rows :: "string \<Rightarrow> Board \<Rightarrow> Board \<Rightarrow> int \<Rightarrow> string \<Rightarrow> string result" where
  "Print_rows indent this next y out =
     (if y < BOARD_SIZE then
        bind (Print_row this next y 0 (out @ indent)) (\<lambda>out.
          Print_rows indent this next (y + 1) (out @ ''\<newline>''))
      else Inr out)"
  by pat_completeness auto
termination
  by (relation "measure (\<lambda>(indent, this, next, y, out). nat (BOARD_SIZE - y))") auto

declare Print_rows.simps [simp del]

definition Print :: "string \<Rightarrow> Board \<Rightarrow> Board option \<Rightarrow> globals \<Rightarrow> globals result" where
  "Print indent this next g =
     (let next = (case next of None \<Rightarrow> this | Some b \<Rightarrow> b)
      in bind (Print_rows indent this next 0 (stdout g)) (\<lambda>out. Inr (g\<lparr>stdout := out\<rparr>)))"

section \<open>Printing the solution\<close>

text \<open>
  \<^verbatim>\<open>PrintSolutionRecursive\<close> follows the second components of \<^verbatim>\<open>state_list\<close>; nothing in
  the function bounds that walk, so it is a partial function.
\<close>

partial_function (option) PrintSolutionRecursive ::
    "int \<Rightarrow> Board option \<Rightarrow> globals \<Rightarrow> (int \<times> globals) run" where
  [code]: "PrintSolutionRecursive i next g =
     (if i < 0 then Some (Inr (0, g))
      else if \<not> nat i < length (state_list g) then Some (Inl BadIndex)
      else
        let cur = fst (state_list g ! nat i)
        in bind_run (PrintSolutionRecursive (snd (state_list g ! nat i)) (Some cur) g)
             (\<lambda>(n, g).
                let step_number = n + 1;
                    g = printf (''Solution step '' @ string_of_int step_number @ ''\<newline>'') g
                in Some (bind (Print ''  '' cur next g)
                     (\<lambda>g. Inr (step_number, printf ''\<newline>'' g)))))"

definition PrintSolutionAndQuit :: "globals \<Rightarrow> 'a run" where
  "PrintSolutionAndQuit g =
     bind_run (PrintSolutionRecursive (int (length (state_list g)) - 1) None g)
       (\<lambda>(n, g). Some (Inl (Exited 0 g)))"

section \<open>Move generation\<close>

text \<open>
  \<^verbatim>\<open>template <int dx, int dy> CheckMove\<close> is instantiated at four pairs of constants, the
  directions in which the board is scanned from the empty cell: \<^verbatim>\<open><+1,0>\<close>, \<^verbatim>\<open><-1,0>\<close>,
  \<^verbatim>\<open><0,+1>\<close> and \<^verbatim>\<open><0,-1>\<close>.
\<close>

datatype dir = Scan_xplus | Scan_xminus | Scan_yplus | Scan_yminus

fun dx :: "dir \<Rightarrow> int" where
  "dx Scan_xplus = 1"
| "dx Scan_xminus = - 1"
| "dx Scan_yplus = 0"
| "dx Scan_yminus = 0"

fun dy :: "dir \<Rightarrow> int" where
  "dy Scan_xplus = 0"
| "dy Scan_xminus = 0"
| "dy Scan_yplus = 1"
| "dy Scan_yminus = - 1"

text \<open>The macro \<^verbatim>\<open>txty_on_board\<close>.\<close>

definition txty_on_board :: "dir \<Rightarrow> int \<Rightarrow> int \<Rightarrow> bool" where
  "txty_on_board d tx ty =
     ((dx d \<ge> 0 \<or> tx \<ge> 0) \<and>
      (dx d \<le> 0 \<or> tx < BOARD_SIZE) \<and>
      (dy d \<ge> 0 \<or> ty \<ge> 0) \<and>
      (dy d \<le> 0 \<or> ty < BOARD_SIZE))"

text \<open>
  \<^verbatim>\<open>do { tx += dx; ty += dy; } while ( (txty_on_board) && s.Cell( ty, tx ) == car );\<close>
  The result is \<open>(tx, ty)\<close> when the loop is left.
\<close>

function find_end :: "dir \<Rightarrow> Board \<Rightarrow> char \<Rightarrow> int \<Rightarrow> int \<Rightarrow> (int \<times> int) result" where
  "find_end d s car tx ty =
     (let tx = tx + dx d; ty = ty + dy d
      in if txty_on_board d tx ty then
           bind (Cell s ty tx) (\<lambda>c. if c = car then find_end d s car tx ty else Inr (tx, ty))
         else Inr (tx, ty))"
  by pat_completeness auto
termination
  by (relation "measure (\<lambda>(d, s, car, tx, ty).
        case d of Scan_xplus \<Rightarrow> nat (BOARD_SIZE - tx) | Scan_xminus \<Rightarrow> nat (tx + 1)
                | Scan_yplus \<Rightarrow> nat (BOARD_SIZE - ty) | Scan_yminus \<Rightarrow> nat (ty + 1))")
     (auto simp: Cell_def BOARD_SIZE_def split: if_splits dir.splits)

declare find_end.simps [simp del]

text \<open>
  \<^verbatim>\<open>for ( int xx = tx+1 ; xx <= x ; ++xx ) s.SetCell( y, xx, c );\<close> from \<open>xx\<close> on: the loop
  that erases a departing car (\<open>c\<close> a space) and the one that puts it back.
\<close>

function set_cells :: "Board \<Rightarrow> int \<Rightarrow> int \<Rightarrow> int \<Rightarrow> char \<Rightarrow> Board result" where
  "set_cells s y xx x c =
     (if xx \<le> x then bind (SetCell s y xx c) (\<lambda>s. set_cells s y (xx + 1) x c) else Inr s)"
  by pat_completeness auto
termination
  by (relation "measure (\<lambda>(s, y, xx, x, c). nat (x + 1 - xx))") auto

declare set_cells.simps [simp del]

text \<open>
  \<^verbatim>\<open>CheckMove\<close> changes the board it is given and the globals; it returns both. The call of
  \<^verbatim>\<open>PrintSolutionAndQuit\<close> does not come back.
\<close>

definition CheckMove :: "dir \<Rightarrow> Board \<Rightarrow> int \<Rightarrow> int \<Rightarrow> int \<Rightarrow> globals \<Rightarrow> (Board \<times> globals) run" where
  "CheckMove d s x y idx_state g =
     (let tx = x + dx d * 2; ty = y + dy d * 2
      in if \<not> txty_on_board d tx ty then Some (Inr (s, g))
         else
           bind_run (Some (Cell s ty tx)) (\<lambda>car.
           bind_run (Some (Cell s (ty - dy d) (tx - dx d))) (\<lambda>c.
             if c \<noteq> car \<or> car = CHR '' '' then Some (Inr (s, g))
             else
               bind_run (Some (find_end d s car tx ty)) (\<lambda>(tx, ty).
                 let tx = tx - dx d; ty = ty - dy d
                 in
                   bind_run (Some (SetCell s y x car)) (\<lambda>s.
                   bind_run (Some (SetCell s ty tx CHR '' '')) (\<lambda>s.
                   bind_run
                     (if dx d = - 1 \<and> x = BOARD_SIZE - 1 \<and> y = BOARD_EXIT_Y then
                        if car = CHR ''X'' then
                          bind_run (Some (CheckAddState s idx_state g)) (\<lambda>g.
                            PrintSolutionAndQuit g)
                        else
                          bind_run (Some (set_cells s y (tx + 1) x CHR '' '')) (\<lambda>s.
                          bind_run (Some (CheckAddState s idx_state g)) (\<lambda>g.
                          bind_run (Some (set_cells s y (tx + 1) x car)) (\<lambda>s.
                            Some (Inr (s, g)))))
                      else
                        bind_run (Some (CheckAddState s idx_state g)) (\<lambda>g. Some (Inr (s, g))))
                     (\<lambda>(s, g).
                        bind_run (Some (SetCell s y x CHR '' '')) (\<lambda>s.
                        bind_run (Some (SetCell s ty tx car)) (\<lambda>s.
                          Some (Inr (s, g)))))))))))"

section \<open>The search\<close>

text \<open>\<^verbatim>\<open>for ( int i = a ; i < n ; ++i ) body\<close>, the body working on a state of type \<open>'a\<close>.\<close>

function for_loop :: "int \<Rightarrow> int \<Rightarrow> (int \<Rightarrow> 'a \<Rightarrow> 'a run) \<Rightarrow> 'a \<Rightarrow> 'a run" where
  "for_loop i n body a =
     (if i < n then bind_run (body i a) (\<lambda>a. for_loop (i + 1) n body a) else Some (Inr a))"
  by pat_completeness auto
termination
  by (relation "measure (\<lambda>(i, n, body, a). nat (n - i))") auto

declare for_loop.simps [simp del]

text \<open>The body of the two loops over the cells of the board in \<^verbatim>\<open>main\<close>.\<close>

definition check_cell :: "int \<Rightarrow> int \<Rightarrow> int \<Rightarrow> Board \<times> globals \<Rightarrow> (Board \<times> globals) run" where
  "check_cell idx_state y x = (\<lambda>(s, g).
     bind_run (Some (Cell s y x)) (\<lambda>c.
       if c \<noteq> CHR '' '' then Some (Inr (s, g))
       else
         bind_run (CheckMove Scan_xplus s x y idx_state g) (\<lambda>(s, g).
         bind_run (CheckMove Scan_xminus s x y idx_state g) (\<lambda>(s, g).
         bind_run (CheckMove Scan_yplus s x y idx_state g) (\<lambda>(s, g).
           CheckMove Scan_yminus s x y idx_state g)))))"

definition explore :: "int \<Rightarrow> Board \<times> globals \<Rightarrow> (Board \<times> globals) run" where
  "explore idx_state =
     for_loop 0 BOARD_SIZE (\<lambda>y. for_loop 0 BOARD_SIZE (\<lambda>x. check_cell idx_state y x))"

text \<open>
  The loop \<^verbatim>\<open>for ( int idx_state = 0 ; idx_state < (int)state_list.size() ; ++idx_state )\<close>
  of \<^verbatim>\<open>main\<close>, from \<open>idx_state\<close> on. The list grows while the loop runs.
\<close>

partial_function (option) search :: "int \<Rightarrow> globals \<Rightarrow> globals run" where
  [code]: "search idx_state g =
     (if idx_state < int (length (state_list g)) then
        let s = fst (state_list g ! nat idx_state);
            g = (if DEBUG_PROGRESS_OUTPUT then g
                 else if idx_state mod 100 = 0
                   then printf (''...explored '' @ string_of_int idx_state @ '' board states\<newline>'') g
                   else g)
        in bind_run (explore idx_state (s, g)) (\<lambda>(s, g). search (idx_state + 1) g)
      else Some (Inr g))"

text \<open>
  \<^verbatim>\<open>main\<close>, with the board that the source writes into \<^verbatim>\<open>initial_board\<close> as its argument. The
  result is the value \<^verbatim>\<open>main\<close> returns, unless the process stopped before.
\<close>

definition main :: "Board \<Rightarrow> (int \<times> globals) run" where
  "main initial_board =
     (let g = \<lparr>state_list = [], states_in_list = {||}, stdout = []\<rparr>;
          g = printf ''Initial board state:\<newline>'' g
      in bind_run (Some (Print ''  '' initial_board None g)) (\<lambda>g.
         bind_run (Some (CheckAddState initial_board (- 1) g)) (\<lambda>g.
           if length (state_list g) \<noteq> 1 then Some (Inl (AssertFailed Initial_size))
           else
             bind_run (search 0 g) (\<lambda>g.
               Some (Inr (1, printf ''Cannot find solution!\<newline>'' g))))))"

text \<open>The three boards that \<^verbatim>\<open>main\<close> of the source offers; the last one is compiled in.\<close>

definition board_1 :: Board where
  "board_1 = [''AA   O'', ''P  Q O'', ''PXXQ O'', ''P  Q  '', ''B   CC'', ''B RRR '']"

definition board_93 :: Board where
  "board_93 = ['' AAB O'', ''CD B O'', ''CDXXEO'', ''FGGHE '', ''F IHJJ'', ''  IPPP'']"

definition board_155 :: Board where
  "board_155 = [''OOOA P'', ''  BA P'', ''XXBIIP'', '' DEEFF'', ''GDH CC'', ''G H JJ'']"

section \<open>Reading and writing cells\<close>

lemma bind_simps [simp]:
  "bind (Inr v) f = f v"
  "bind (Inl h) f = Inl h"
  by (simp_all add: bind_def)

lemma bind_run_simps [simp]:
  "bind_run (Some (Inr v)) f = f v"
  "bind_run (Some (Inl h)) f = Some (Inl h)"
  "bind_run None f = None"
  by (simp_all add: bind_run_def)

definition cell_at :: "Board \<Rightarrow> int \<Rightarrow> int \<Rightarrow> char" where
  "cell_at b y x = b ! nat y ! nat x"

definition put :: "Board \<Rightarrow> int \<Rightarrow> int \<Rightarrow> char \<Rightarrow> Board" where
  "put b y x c = b[nat y := (b ! nat y)[nat x := c]]"

lemma Cell_in_range: "in_range y x \<Longrightarrow> Cell b y x = Inr (cell_at b y x)"
  by (simp add: Cell_def in_range_def cell_at_def)

lemma Cell_off: "\<not> in_range y x \<Longrightarrow> Cell b y x = Inl (AssertFailed Cell_bounds)"
  by (auto simp add: Cell_def in_range_def)

lemma SetCell_in_range: "in_range y x \<Longrightarrow> SetCell b y x c = Inr (put b y x c)"
  by (simp add: SetCell_def in_range_def put_def)

lemma wf_board_put: "wf_board b \<Longrightarrow> wf_board (put b y x c)"
proof -
  assume wf: "wf_board b"
  have "length ((put b y x c) ! n) = nat BOARD_SIZE" if "n < nat BOARD_SIZE" for n
  proof (cases "n = nat y")
    case True
    with wf that show ?thesis by (simp add: put_def wf_board_def list_all_length)
  next
    case False
    with wf that show ?thesis by (simp add: put_def wf_board_def list_all_length)
  qed
  with wf show ?thesis by (simp add: wf_board_def list_all_length put_def)
qed

lemma cell_at_put:
  "wf_board b \<Longrightarrow> in_range y x \<Longrightarrow> in_range y' x' \<Longrightarrow>
   cell_at (put b y x c) y' x' = (if y' = y \<and> x' = x then c else cell_at b y' x')"
  by (auto simp: wf_board_def put_def cell_at_def in_range_def BOARD_SIZE_def list_all_length
      nth_list_update)

lemma board_eqI:
  assumes "wf_board a" "wf_board b"
    and "\<And>y x. in_range y x \<Longrightarrow> cell_at a y x = cell_at b y x"
  shows "a = b"
proof (rule nth_equalityI)
  show "length a = length b" using assms by (simp add: wf_board_def)
next
  fix i assume i: "i < length a"
  have la: "length (a ! i) = 6" "length (b ! i) = 6"
    using assms(1,2) i by (auto simp: wf_board_def list_all_length BOARD_SIZE_def)
  show "a ! i = b ! i"
  proof (rule nth_equalityI)
    show "length (a ! i) = length (b ! i)" using la by simp
  next
    fix j assume j: "j < length (a ! i)"
    have "in_range (int i) (int j)"
      using i j la assms(1) by (simp add: in_range_def wf_board_def BOARD_SIZE_def)
    from assms(3)[OF this] show "a ! i ! j = b ! i ! j"
      by (simp add: cell_at_def)
  qed
qed

lemma on_board_in_range:
  "in_range ty tx \<Longrightarrow> txty_on_board d (tx + dx d) (ty + dy d) \<Longrightarrow> in_range (ty + dy d) (tx + dx d)"
  by (cases d) (auto simp: in_range_def txty_on_board_def)

lemma find_end_spec:
  "in_range ty tx \<Longrightarrow>
   \<exists>k\<ge>1. find_end d s car tx ty = Inr (tx + k * dx d, ty + k * dy d) \<and>
      in_range (ty + (k - 1) * dy d) (tx + (k - 1) * dx d) \<and>
      (\<forall>j. 1 \<le> j \<and> j < k \<longrightarrow> cell_at s (ty + j * dy d) (tx + j * dx d) = car) \<and>
      (txty_on_board d (tx + k * dx d) (ty + k * dy d) \<longrightarrow>
         cell_at s (ty + k * dy d) (tx + k * dx d) \<noteq> car)"
proof (induction d s car tx ty rule: find_end.induct)
  case (1 d s car tx ty)
  show ?case
  proof (cases "txty_on_board d (tx + dx d) (ty + dy d)")
    case False
    then have "find_end d s car tx ty = Inr (tx + dx d, ty + dy d)"
      by (subst find_end.simps) (simp add: Let_def)
    with False "1.prems" show ?thesis
      by (intro exI[of _ 1]) auto
  next
    case True
    then have ir: "in_range (ty + dy d) (tx + dx d)"
      using "1.prems" by (rule on_board_in_range[rotated])
    show ?thesis
    proof (cases "cell_at s (ty + dy d) (tx + dx d) = car")
      case False
      then have "find_end d s car tx ty = Inr (tx + dx d, ty + dy d)"
        using True ir by (subst find_end.simps) (simp add: Let_def Cell_in_range)
      with False "1.prems" show ?thesis
        by (intro exI[of _ 1]) auto
    next
      case eq: True
      have step: "find_end d s car tx ty = find_end d s car (tx + dx d) (ty + dy d)"
        using True ir eq by (subst find_end.simps) (simp add: Let_def Cell_in_range)
      from "1.IH"[OF refl refl True Cell_in_range[OF ir] eq ir]
      obtain k where k: "k \<ge> 1"
        "find_end d s car (tx + dx d) (ty + dy d) = Inr (tx + dx d + k * dx d, ty + dy d + k * dy d)"
        "in_range (ty + dy d + (k - 1) * dy d) (tx + dx d + (k - 1) * dx d)"
        "\<forall>j. 1 \<le> j \<and> j < k \<longrightarrow> cell_at s (ty + dy d + j * dy d) (tx + dx d + j * dx d) = car"
        "txty_on_board d (tx + dx d + k * dx d) (ty + dy d + k * dy d) \<longrightarrow>
           cell_at s (ty + dy d + k * dy d) (tx + dx d + k * dx d) \<noteq> car"
        by blast
      have a: "\<And>j. tx + dx d + j * dx d = tx + (j + 1) * dx d" "\<And>j. ty + dy d + j * dy d = ty + (j + 1) * dy d"
        by (simp_all add: algebra_simps)
      have all: "\<forall>j. 1 \<le> j \<and> j < k + 1 \<longrightarrow> cell_at s (ty + j * dy d) (tx + j * dx d) = car"
      proof (intro allI impI)
        fix j assume j: "1 \<le> j \<and> j < k + 1"
        show "cell_at s (ty + j * dy d) (tx + j * dx d) = car"
        proof (cases "j = 1")
          case True then show ?thesis using eq by simp
        next
          case False
          then have "1 \<le> j - 1 \<and> j - 1 < k" using j by simp
          with k(4) have "cell_at s (ty + dy d + (j - 1) * dy d) (tx + dx d + (j - 1) * dx d) = car"
            by blast
          then show ?thesis by (simp add: a)
        qed
      qed
      show ?thesis
        apply (rule exI[of _ "k + 1"])
        using k(1,2,3,5) all step by (simp add: a)
    qed
  qed
qed

section \<open>What one call of CheckMove does\<close>

definition probe :: "dir \<Rightarrow> Board \<Rightarrow> int \<Rightarrow> int \<Rightarrow> bool" where
  "probe d s x y =
     (txty_on_board d (x + dx d * 2) (y + dy d * 2) \<and>
      cell_at s (y + dy d) (x + dx d) = cell_at s (y + dy d * 2) (x + dx d * 2) \<and>
      cell_at s (y + dy d * 2) (x + dx d * 2) \<noteq> CHR '' '')"

lemma probe_in_range:
  "in_range y x \<Longrightarrow> txty_on_board d (x + dx d * 2) (y + dy d * 2) \<Longrightarrow>
   in_range (y + dy d * 2) (x + dx d * 2) \<and> in_range (y + dy d) (x + dx d)"
  by (cases d) (auto simp: in_range_def txty_on_board_def)

lemma CheckMove_no_car:
  "in_range y x \<Longrightarrow> \<not> probe d s x y \<Longrightarrow> CheckMove d s x y idx_state g = Some (Inr (s, g))"
proof (cases "txty_on_board d (x + dx d * 2) (y + dy d * 2)")
  case False
  then show ?thesis by (simp add: CheckMove_def Let_def)
next
  case True
  assume ir: "in_range y x" and np: "\<not> probe d s x y"
  from probe_in_range[OF ir True]
  have ir2: "in_range (y + dy d * 2) (x + dx d * 2)" and ir1: "in_range (y + dy d) (x + dx d)"
    by auto
  have e: "y + dy d * 2 - dy d = y + dy d" "x + dx d * 2 - dx d = x + dx d" by simp_all
  have c2: "Cell s (y + dy d * 2) (x + dx d * 2) = Inr (cell_at s (y + dy d * 2) (x + dx d * 2))"
    and c1: "Cell s (y + dy d * 2 - dy d) (x + dx d * 2 - dx d) = Inr (cell_at s (y + dy d) (x + dx d))"
    using ir1 ir2 by (simp_all only: e Cell_in_range)
  show ?thesis
    unfolding CheckMove_def Let_def c2 c1 bind_run_simps
    using True np by (auto simp: probe_def)
qed

text \<open>The part of \<^verbatim>\<open>CheckMove\<close> between the two pairs of \<^verbatim>\<open>SetCell\<close> calls.\<close>

definition offer :: "dir \<Rightarrow> Board \<Rightarrow> int \<Rightarrow> int \<Rightarrow> int \<Rightarrow> char \<Rightarrow> int \<Rightarrow> globals \<Rightarrow> (Board \<times> globals) run" where
  "offer d s x y tx car idx_state g =
     (if dx d = - 1 \<and> x = BOARD_SIZE - 1 \<and> y = BOARD_EXIT_Y then
        if car = CHR ''X'' then
          bind_run (Some (CheckAddState s idx_state g)) (\<lambda>g. PrintSolutionAndQuit g)
        else
          bind_run (Some (set_cells s y (tx + 1) x CHR '' '')) (\<lambda>s.
          bind_run (Some (CheckAddState s idx_state g)) (\<lambda>g.
          bind_run (Some (set_cells s y (tx + 1) x car)) (\<lambda>s.
            Some (Inr (s, g)))))
      else
        bind_run (Some (CheckAddState s idx_state g)) (\<lambda>g. Some (Inr (s, g))))"

text \<open>
  Where the loop of \<^verbatim>\<open>CheckMove\<close> stops, one step back: the cell of the car that is farthest
  from \<open>(y, x)\<close>, as the pair \<open>(tx, ty)\<close>.
\<close>

definition far_end :: "dir \<Rightarrow> Board \<Rightarrow> int \<Rightarrow> int \<Rightarrow> int \<times> int" where
  "far_end d s x y =
     (case find_end d s (cell_at s (y + dy d) (x + dx d)) (x + dx d * 2) (y + dy d * 2) of
        Inr (tx, ty) \<Rightarrow> (tx - dx d, ty - dy d)
      | Inl h \<Rightarrow> (x, y))"

definition slide :: "dir \<Rightarrow> Board \<Rightarrow> int \<Rightarrow> int \<Rightarrow> Board" where
  "slide d s x y =
     put (put s y x (cell_at s (y + dy d) (x + dx d)))
       (snd (far_end d s x y)) (fst (far_end d s x y)) CHR '' ''"

lemma far_end_spec:
  assumes ir: "in_range y x" and pr: "probe d s x y"
  shows "\<exists>L\<ge>2. far_end d s x y = (x + L * dx d, y + L * dy d) \<and>
      find_end d s (cell_at s (y + dy d) (x + dx d)) (x + dx d * 2) (y + dy d * 2) =
        Inr (x + L * dx d + dx d, y + L * dy d + dy d) \<and>
      in_range (y + L * dy d) (x + L * dx d) \<and>
      (\<forall>j. 1 \<le> j \<and> j \<le> L \<longrightarrow> cell_at s (y + j * dy d) (x + j * dx d) = cell_at s (y + dy d) (x + dx d)) \<and>
      (txty_on_board d (x + (L + 1) * dx d) (y + (L + 1) * dy d) \<longrightarrow>
         cell_at s (y + (L + 1) * dy d) (x + (L + 1) * dx d) \<noteq> cell_at s (y + dy d) (x + dx d))"
proof -
  let ?car = "cell_at s (y + dy d) (x + dx d)"
  from pr have ob: "txty_on_board d (x + dx d * 2) (y + dy d * 2)"
    and eq: "cell_at s (y + dy d * 2) (x + dx d * 2) = ?car" and ne: "?car \<noteq> CHR '' ''"
    by (auto simp: probe_def)
  from probe_in_range[OF ir ob]
  have ir2: "in_range (y + dy d * 2) (x + dx d * 2)" and ir1: "in_range (y + dy d) (x + dx d)"
    by auto
  from find_end_spec[OF ir2, of d s ?car]
  obtain k where k: "k \<ge> 1"
    "find_end d s ?car (x + dx d * 2) (y + dy d * 2) = Inr (x + dx d * 2 + k * dx d, y + dy d * 2 + k * dy d)"
    "in_range (y + dy d * 2 + (k - 1) * dy d) (x + dx d * 2 + (k - 1) * dx d)"
    "\<forall>j. 1 \<le> j \<and> j < k \<longrightarrow> cell_at s (y + dy d * 2 + j * dy d) (x + dx d * 2 + j * dx d) = ?car"
    "txty_on_board d (x + dx d * 2 + k * dx d) (y + dy d * 2 + k * dy d) \<longrightarrow>
       cell_at s (y + dy d * 2 + k * dy d) (x + dx d * 2 + k * dx d) \<noteq> ?car"
    by blast
  define L where "L = k + 1"
  have a: "\<And>j. x + dx d * 2 + j * dx d = x + (j + 2) * dx d"
          "\<And>j. y + dy d * 2 + j * dy d = y + (j + 2) * dy d"
    by (simp_all add: algebra_simps)
  have b: "x + dx d * 2 + k * dx d - dx d = x + L * dx d" "y + dy d * 2 + k * dy d - dy d = y + L * dy d"
    by (simp_all add: algebra_simps L_def)
  have b0: "x + dx d * 2 + k * dx d = x + L * dx d + dx d" "y + dy d * 2 + k * dy d = y + L * dy d + dy d"
    by (simp_all add: algebra_simps L_def)
  have b': "x + dx d * 2 + (k - 1) * dx d = x + L * dx d" "y + dy d * 2 + (k - 1) * dy d = y + L * dy d"
    by (simp_all add: algebra_simps L_def)
  have irL: "in_range (y + L * dy d) (x + L * dx d)"
    using k(3) by (simp only: b')
  have cells: "\<forall>j. 1 \<le> j \<and> j \<le> L \<longrightarrow> cell_at s (y + j * dy d) (x + j * dx d) = ?car"
  proof (intro allI impI)
    fix j assume j: "1 \<le> j \<and> j \<le> L"
    consider "j = 1" | "j = 2" | "1 \<le> j - 2 \<and> j - 2 < k"
      using j unfolding L_def by atomize_elim arith
    then show "cell_at s (y + j * dy d) (x + j * dx d) = ?car"
    proof cases
      case 1 then show ?thesis by simp
    next
      case 2 then show ?thesis using eq by (simp add: mult.commute)
    next
      case 3
      with k(4) have "cell_at s (y + dy d * 2 + (j - 2) * dy d) (x + dx d * 2 + (j - 2) * dx d) = ?car"
        by blast
      then show ?thesis by (simp add: a)
    qed
  qed
  have b'': "x + dx d * 2 + k * dx d = x + (L + 1) * dx d" "y + dy d * 2 + k * dy d = y + (L + 1) * dy d"
    by (simp_all add: algebra_simps L_def)
  have beyond: "txty_on_board d (x + (L + 1) * dx d) (y + (L + 1) * dy d) \<longrightarrow>
         cell_at s (y + (L + 1) * dy d) (x + (L + 1) * dx d) \<noteq> ?car"
    using k(5) by (simp only: b'')
  have fe: "far_end d s x y = (x + L * dx d, y + L * dy d)"
    unfolding far_end_def k(2) by (simp only: sum.case prod.case b)
  have fe2: "find_end d s ?car (x + dx d * 2) (y + dy d * 2) = Inr (x + L * dx d + dx d, y + L * dy d + dy d)"
    using k(2) by (simp only: b0)
  have "L \<ge> 2" using k(1) by (simp add: L_def)
  with irL cells beyond fe fe2 show ?thesis by blast
qed

lemma CheckMove_car:
  assumes ir: "in_range y x" and pr: "probe d s x y"
  shows "CheckMove d s x y idx_state g =
        bind_run (offer d (slide d s x y) x y (fst (far_end d s x y))
                    (cell_at s (y + dy d) (x + dx d)) idx_state g)
          (\<lambda>(s', g'). Some (Inr (put (put s' y x CHR '' '')
              (snd (far_end d s x y)) (fst (far_end d s x y)) (cell_at s (y + dy d) (x + dx d)), g')))"
proof -
  let ?car = "cell_at s (y + dy d) (x + dx d)"
  from pr have ob: "txty_on_board d (x + dx d * 2) (y + dy d * 2)"
    and eq: "cell_at s (y + dy d * 2) (x + dx d * 2) = ?car" and ne: "?car \<noteq> CHR '' ''"
    by (auto simp: probe_def)
  from probe_in_range[OF ir ob]
  have ir2: "in_range (y + dy d * 2) (x + dx d * 2)" and ir1: "in_range (y + dy d) (x + dx d)"
    by auto
  from far_end_spec[OF ir pr] obtain L where L: "far_end d s x y = (x + L * dx d, y + L * dy d)"
    "find_end d s ?car (x + dx d * 2) (y + dy d * 2) = Inr (x + L * dx d + dx d, y + L * dy d + dy d)"
    "in_range (y + L * dy d) (x + L * dx d)"
    by blast
  have e: "y + dy d * 2 - dy d = y + dy d" "x + dx d * 2 - dx d = x + dx d" by simp_all
  have c2: "Cell s (y + dy d * 2) (x + dx d * 2) = Inr ?car"
    and c1: "Cell s (y + dy d * 2 - dy d) (x + dx d * 2 - dx d) = Inr ?car"
    using ir1 ir2 eq by (simp_all only: e Cell_in_range)
  have b: "x + L * dx d + dx d - dx d = x + L * dx d" "y + L * dy d + dy d - dy d = y + L * dy d"
    by simp_all
  show ?thesis
    unfolding CheckMove_def Let_def c2 c1 bind_run_simps L(2) prod.case b slide_def L(1) fst_conv snd_conv
      SetCell_in_range[OF ir] SetCell_in_range[OF L(3)] offer_def
    using ob ne by simp
qed


lemma far_end_neq:
  assumes "L \<ge> (2::int)"
  shows "\<not> (y + L * dy d = y \<and> x + L * dx d = x)"
  using assms by (cases d) auto

lemma restore_slide:
  assumes wf: "wf_board s" and ir: "in_range y x" and irt: "in_range ty tx"
    and ne: "\<not> (ty = y \<and> tx = x)" and e: "cell_at s y x = CHR '' ''" and c: "cell_at s ty tx = car"
  shows "put (put (put (put s y x car) ty tx CHR '' '') y x CHR '' '') ty tx car = s"
proof (rule board_eqI)
  show "wf_board (put (put (put (put s y x car) ty tx CHR '' '') y x CHR '' '') ty tx car)"
    using wf by (intro wf_board_put)
  show "wf_board s" by (rule wf)
next
  fix y' x' assume "in_range y' x'"
  then show "cell_at (put (put (put (put s y x car) ty tx CHR '' '') y x CHR '' '') ty tx car) y' x'
      = cell_at s y' x'"
    using wf ir irt ne e c by (auto simp: cell_at_put wf_board_put)
qed

lemma bind_run_assoc:
  "bind_run (bind_run m f) k = bind_run m (\<lambda>v. bind_run (f v) k)"
  by (auto simp: bind_run_def split: option.splits sum.splits)

lemma CheckMove_ordinary:
  assumes wf: "wf_board s" and ir: "in_range y x" and e: "cell_at s y x = CHR '' ''"
    and pr: "probe d s x y"
    and ord: "\<not> (dx d = - 1 \<and> x = BOARD_SIZE - 1 \<and> y = BOARD_EXIT_Y)"
  shows "CheckMove d s x y idx_state g =
     bind_run (Some (CheckAddState (slide d s x y) idx_state g)) (\<lambda>g'. Some (Inr (s, g')))"
proof -
  let ?car = "cell_at s (y + dy d) (x + dx d)"
  from far_end_spec[OF ir pr] obtain L where L: "L \<ge> 2"
    "far_end d s x y = (x + L * dx d, y + L * dy d)"
    "in_range (y + L * dy d) (x + L * dx d)"
    "\<forall>j. 1 \<le> j \<and> j \<le> L \<longrightarrow> cell_at s (y + j * dy d) (x + j * dx d) = ?car"
    by blast
  have c: "cell_at s (y + L * dy d) (x + L * dx d) = ?car" using L(1,4) by simp
  have r: "put (put (slide d s x y) y x CHR '' '') (y + L * dy d) (x + L * dx d) ?car = s"
    unfolding slide_def L(2) fst_conv snd_conv
    by (rule restore_slide[OF wf ir L(3) far_end_neq[OF L(1)] e c])
  have o: "offer d (slide d s x y) x y (fst (far_end d s x y)) ?car idx_state g =
      bind_run (Some (CheckAddState (slide d s x y) idx_state g)) (\<lambda>g'. Some (Inr (slide d s x y, g')))"
    using ord by (auto simp: offer_def)
  show ?thesis
    unfolding CheckMove_car[OF ir pr] o bind_run_assoc
    by (simp add: L(2) r)
qed

text \<open>The board after the loop \<^verbatim>\<open>set_cells\<close>, when every cell written is on the board.\<close>

lemma set_cells_spec:
  assumes "0 \<le> y" "y < BOARD_SIZE" "0 \<le> xx" "x < BOARD_SIZE"
  shows "\<exists>s'. set_cells s y xx x c = Inr s' \<and>
           (wf_board s \<longrightarrow> wf_board s' \<and>
              (\<forall>y' x'. in_range y' x' \<longrightarrow>
                 cell_at s' y' x' = (if y' = y \<and> xx \<le> x' \<and> x' \<le> x then c else cell_at s y' x')))"
  using assms
proof (induction s y xx x c rule: set_cells.induct)
  case (1 s y xx x c)
  show ?case
  proof (cases "xx \<le> x")
    case False
    then show ?thesis by (subst set_cells.simps) auto
  next
    case True
    then have ir: "in_range y xx" using "1.prems" by (simp add: in_range_def)
    have sc: "SetCell s y xx c = Inr (put s y xx c)" by (rule SetCell_in_range[OF ir])
    from "1.IH"[OF True sc] "1.prems"
    obtain s' where s': "set_cells (put s y xx c) y (xx + 1) x c = Inr s'"
      "wf_board (put s y xx c) \<longrightarrow> wf_board s' \<and>
         (\<forall>y' x'. in_range y' x' \<longrightarrow>
            cell_at s' y' x' = (if y' = y \<and> xx + 1 \<le> x' \<and> x' \<le> x then c else cell_at (put s y xx c) y' x'))"
      by auto
    have eq: "set_cells s y xx x c = Inr s'"
      using True s'(1) by (subst set_cells.simps) (simp add: sc)
    show ?thesis
    proof (intro exI conjI impI)
      show "set_cells s y xx x c = Inr s'" by (rule eq)
    next
      assume wf: "wf_board s"
      then show "wf_board s'" using s'(2) by (simp add: wf_board_put)
    next
      assume wf: "wf_board s"
      show "\<forall>y' x'. in_range y' x' \<longrightarrow>
          cell_at s' y' x' = (if y' = y \<and> xx \<le> x' \<and> x' \<le> x then c else cell_at s y' x')"
      proof (intro allI impI)
        fix y' x' assume i: "in_range y' x'"
        with s'(2) wf have "cell_at s' y' x' =
            (if y' = y \<and> xx + 1 \<le> x' \<and> x' \<le> x then c else cell_at (put s y xx c) y' x')"
          by (simp add: wf_board_put)
        then show "cell_at s' y' x' = (if y' = y \<and> xx \<le> x' \<and> x' \<le> x then c else cell_at s y' x')"
          using wf ir i True by (auto simp: cell_at_put)
      qed
    qed
  qed
qed

text \<open>
  The board that \<^verbatim>\<open>CheckMove\<close> hands to \<^verbatim>\<open>CheckAddState\<close> after the loop that erases a car
  at the exit.
\<close>

definition vacate :: "Board \<Rightarrow> Board" where
  "vacate s =
     (case set_cells (slide Scan_xminus s (BOARD_SIZE - 1) BOARD_EXIT_Y) BOARD_EXIT_Y
             (fst (far_end Scan_xminus s (BOARD_SIZE - 1) BOARD_EXIT_Y) + 1) (BOARD_SIZE - 1) CHR '' '' of
        Inr b \<Rightarrow> b
      | Inl h \<Rightarrow> s)"

lemma in_range_exit: "in_range 2 5"
  by (simp add: in_range_def BOARD_SIZE_def)

lemma exit_lane_span:
  assumes pr: "probe Scan_xminus s 5 2"
  shows "\<exists>tx. 0 \<le> tx \<and> tx \<le> 3 \<and> far_end Scan_xminus s 5 2 = (tx, 2) \<and>
     (\<forall>j. tx \<le> j \<and> j \<le> 4 \<longrightarrow> cell_at s 2 j = cell_at s 2 4) \<and>
     (0 < tx \<longrightarrow> cell_at s 2 (tx - 1) \<noteq> cell_at s 2 4)"
proof -
  from far_end_spec[OF in_range_exit pr] obtain L where L: "L \<ge> 2"
    "far_end Scan_xminus s 5 2 = (5 - L, 2)"
    "in_range 2 (5 - L)"
    "\<forall>j. 1 \<le> j \<and> j \<le> L \<longrightarrow> cell_at s 2 (5 - j) = cell_at s 2 4"
    "txty_on_board Scan_xminus (5 - (L + 1)) 2 \<longrightarrow> cell_at s 2 (5 - (L + 1)) \<noteq> cell_at s 2 4"
    by auto
  have cells: "\<forall>j. 5 - L \<le> j \<and> j \<le> 4 \<longrightarrow> cell_at s 2 j = cell_at s 2 4"
  proof (intro allI impI)
    fix j assume j: "5 - L \<le> j \<and> j \<le> 4"
    then have "1 \<le> 5 - j \<and> 5 - j \<le> L" by simp
    with L(4) have "cell_at s 2 (5 - (5 - j)) = cell_at s 2 4"
      by blast
    then show "cell_at s 2 j = cell_at s 2 4" by simp
  qed
  have t: "0 \<le> 5 - L" "5 - L \<le> 3" using L(1,3) by (simp_all add: in_range_def)
  have bey: "0 < 5 - L \<longrightarrow> cell_at s 2 (5 - L - 1) \<noteq> cell_at s 2 4"
  proof
    assume "0 < 5 - L"
    then have "txty_on_board Scan_xminus (5 - (L + 1)) 2" by (simp add: txty_on_board_def)
    with L(5) have "cell_at s 2 (5 - (L + 1)) \<noteq> cell_at s 2 4" by blast
    then show "cell_at s 2 (5 - L - 1) \<noteq> cell_at s 2 4" by (simp add: algebra_simps)
  qed
  from t L(2) cells bey show ?thesis by blast
qed


lemma slide_exit_cells:
  assumes wf: "wf_board s" and fe: "far_end Scan_xminus s 5 2 = (tx, 2)" and t: "0 \<le> tx" "tx \<le> 3"
    and i: "in_range y' x'"
  shows "cell_at (slide Scan_xminus s 5 2) y' x' =
     (if y' = 2 \<and> x' = tx then CHR '' '' else if y' = 2 \<and> x' = 5 then cell_at s 2 4 else cell_at s y' x')"
proof -
  have irt: "in_range 2 tx" using t by (simp add: in_range_def BOARD_SIZE_def)
  show ?thesis
    using wf i irt in_range_exit t
    by (simp add: slide_def fe cell_at_put wf_board_put)
qed

lemma wf_board_slide: "wf_board s \<Longrightarrow> wf_board (slide d s x y)"
  by (simp add: slide_def wf_board_put)

lemma vacate_spec:
  assumes wf: "wf_board s" and pr: "probe Scan_xminus s 5 2"
  shows "wf_board (vacate s) \<and>
     set_cells (slide Scan_xminus s 5 2) 2 (fst (far_end Scan_xminus s 5 2) + 1) 5 CHR '' '' = Inr (vacate s) \<and>
     (\<forall>y' x'. in_range y' x' \<longrightarrow> cell_at (vacate s) y' x' =
        (if y' = 2 \<and> fst (far_end Scan_xminus s 5 2) \<le> x' then CHR '' '' else cell_at s y' x'))"
proof -
  let ?s1 = "slide Scan_xminus s 5 2"
  from exit_lane_span[OF pr] obtain tx where tx: "0 \<le> tx" "tx \<le> 3"
    "far_end Scan_xminus s 5 2 = (tx, 2)"
    by blast
  have wf1: "wf_board ?s1" using wf by (rule wf_board_slide)
  have "(0::int) \<le> 2" "2 < BOARD_SIZE" "0 \<le> tx + 1" "5 < BOARD_SIZE"
    using tx by (simp_all add: BOARD_SIZE_def)
  from set_cells_spec[OF this, of ?s1 "CHR '' ''"] wf1
  obtain s' where s': "set_cells ?s1 2 (tx + 1) 5 CHR '' '' = Inr s'"
    "wf_board s'"
    "\<forall>y' x'. in_range y' x' \<longrightarrow> cell_at s' y' x' =
       (if y' = 2 \<and> tx + 1 \<le> x' \<and> x' \<le> 5 then CHR '' '' else cell_at ?s1 y' x')"
    by blast
  have v: "vacate s = s'"
    unfolding vacate_def by (simp add: BOARD_SIZE_def BOARD_EXIT_Y_def tx(3) s'(1))
  have "cell_at s' y' x' = (if y' = 2 \<and> tx \<le> x' then CHR '' '' else cell_at s y' x')"
    if i: "in_range y' x'" for y' x'
  proof -
    have x5: "x' \<le> 5" using i by (simp add: in_range_def BOARD_SIZE_def)
    show ?thesis
      using s'(3) i slide_exit_cells[OF wf tx(3) tx(1,2) i] x5 tx(1,2)
      by (cases "y' = 2 \<and> tx + 1 \<le> x'") auto
  qed
  with s'(1,2) v tx(3) show ?thesis by simp
qed

lemma PrintSolutionAndQuit_bind:
  "bind_run (PrintSolutionAndQuit g) f = PrintSolutionAndQuit g"
  by (auto simp: PrintSolutionAndQuit_def bind_run_def split: option.splits sum.splits prod.splits)

lemma CheckMove_exit_goal:
  assumes ir: "in_range y x" and pr: "probe d s x y"
    and ex: "dx d = - 1 \<and> x = BOARD_SIZE - 1 \<and> y = BOARD_EXIT_Y"
    and goal: "cell_at s (y + dy d) (x + dx d) = CHR ''X''"
  shows "CheckMove d s x y idx_state g =
     bind_run (Some (CheckAddState (slide d s x y) idx_state g)) PrintSolutionAndQuit"
proof -
  have o: "offer d (slide d s x y) x y (fst (far_end d s x y)) (cell_at s (y + dy d) (x + dx d)) idx_state g =
      bind_run (Some (CheckAddState (slide d s x y) idx_state g)) PrintSolutionAndQuit"
    using ex goal by (simp add: offer_def)
  show ?thesis
    unfolding CheckMove_car[OF ir pr] o bind_run_assoc PrintSolutionAndQuit_bind ..
qed


lemma CheckMove_exit_other:
  assumes wf: "wf_board s" and e: "cell_at s 2 5 = CHR '' ''"
    and pr: "probe Scan_xminus s 5 2"
    and other: "cell_at s 2 4 \<noteq> CHR ''X''"
  shows "CheckMove Scan_xminus s 5 2 idx_state g =
     bind_run (Some (CheckAddState (vacate s) idx_state g)) (\<lambda>g'. Some (Inr (s, g')))"
proof -
  let ?s1 = "slide Scan_xminus s 5 2"
  let ?car = "cell_at s 2 4"
  from exit_lane_span[OF pr] obtain tx where tx: "0 \<le> tx" "tx \<le> 3"
    "far_end Scan_xminus s 5 2 = (tx, 2)"
    "\<forall>j. tx \<le> j \<and> j \<le> 4 \<longrightarrow> cell_at s 2 j = ?car"
    by blast
  have irt: "in_range 2 tx"
    using tx by (simp_all add: in_range_def BOARD_SIZE_def)
  have wf1: "wf_board ?s1" using wf by (rule wf_board_slide)
  from vacate_spec[OF wf pr] have v: "wf_board (vacate s)"
    "set_cells ?s1 2 (tx + 1) 5 CHR '' '' = Inr (vacate s)"
    "\<forall>y' x'. in_range y' x' \<longrightarrow> cell_at (vacate s) y' x' =
        (if y' = 2 \<and> tx \<le> x' then CHR '' '' else cell_at s y' x')"
    by (simp_all add: tx(3))
  have "(0::int) \<le> 2" "2 < BOARD_SIZE" "0 \<le> tx + 1" "5 < BOARD_SIZE"
    using tx by (simp_all add: BOARD_SIZE_def)
  from set_cells_spec[OF this, of "vacate s" ?car] v(1)
  obtain s3 where s3: "set_cells (vacate s) 2 (tx + 1) 5 ?car = Inr s3" "wf_board s3"
    "\<forall>y' x'. in_range y' x' \<longrightarrow> cell_at s3 y' x' =
       (if y' = 2 \<and> tx + 1 \<le> x' \<and> x' \<le> 5 then ?car else cell_at (vacate s) y' x')"
    by blast
  have again: "s3 = ?s1"
  proof (rule board_eqI[OF s3(2) wf1])
    fix y' x' assume i: "in_range y' x'"
    have x5: "x' \<le> 5" using i by (simp add: in_range_def BOARD_SIZE_def)
    show "cell_at s3 y' x' = cell_at ?s1 y' x'"
    proof (cases "y' = 2 \<and> tx + 1 \<le> x'")
      case True
      then have "cell_at s3 y' x' = ?car" using s3(3) i x5 by simp
      moreover have "cell_at ?s1 y' x' = ?car"
      proof (cases "x' = 5")
        case True
        with slide_exit_cells[OF wf tx(3) tx(1,2) i] \<open>y' = 2 \<and> tx + 1 \<le> x'\<close> tx(2)
        show ?thesis by simp
      next
        case False
        with x5 True have "tx \<le> x' \<and> x' \<le> 4" by simp
        then have "cell_at s 2 x' = ?car" using tx(4) by blast
        with slide_exit_cells[OF wf tx(3) tx(1,2) i] True False show ?thesis by simp
      qed
      ultimately show ?thesis by simp
    next
      case False
      then have "cell_at s3 y' x' = cell_at (vacate s) y' x'" using s3(3) i by auto
      also have "\<dots> = (if y' = 2 \<and> tx \<le> x' then CHR '' '' else cell_at s y' x')"
        using v(3) i by simp
      also have "\<dots> = cell_at ?s1 y' x'"
      proof (cases "y' = 2")
        case y2: True
        with False have lt: "x' \<le> tx" by simp
        show ?thesis
        proof (cases "x' = tx")
          case True
          with y2 slide_exit_cells[OF wf tx(3) tx(1,2) i] show ?thesis by simp
        next
          case ne: False
          with lt have "x' < tx" by simp
          with y2 tx(2) slide_exit_cells[OF wf tx(3) tx(1,2) i] show ?thesis by simp
        qed
      next
        case False
        with slide_exit_cells[OF wf tx(3) tx(1,2) i] show ?thesis by simp
      qed
      finally show ?thesis .
    qed
  qed
  have o: "offer Scan_xminus ?s1 5 2 tx ?car idx_state g =
      bind_run (Some (CheckAddState (vacate s) idx_state g)) (\<lambda>g'. Some (Inr (?s1, g')))"
  proof -
    have c1: "dx Scan_xminus = - 1 \<and> (5::int) = BOARD_SIZE - 1 \<and> (2::int) = BOARD_EXIT_Y"
      by (simp add: BOARD_SIZE_def BOARD_EXIT_Y_def)
    show ?thesis
      unfolding offer_def if_P[OF c1] if_not_P[OF other] v(2) bind_run_simps
      by (cases "CheckAddState (vacate s) idx_state g") (simp_all add: s3(1) again)
  qed
  have "tx \<le> tx \<and> tx \<le> 4" using tx(2) by simp
  then have c: "cell_at s 2 tx = ?car" using tx(4) by blast
  have ne: "\<not> ((2::int) = 2 \<and> tx = 5)" using tx(2) by simp
  have r: "put (put ?s1 2 5 CHR '' '') 2 tx ?car = s"
    using restore_slide[OF wf in_range_exit irt ne e c]
    by (simp add: slide_def tx(3))
  have cm: "CheckMove Scan_xminus s 5 2 idx_state g =
      bind_run (offer Scan_xminus ?s1 5 2 tx ?car idx_state g)
        (\<lambda>(s', g'). Some (Inr (put (put s' 2 5 CHR '' '') 2 tx ?car, g')))"
    using CheckMove_car[OF in_range_exit pr, of idx_state g] by (simp add: tx(3))
  show ?thesis
    unfolding cm o bind_run_assoc
    by (simp add: r)
qed

section \<open>Printing does not fail on a board and its successor\<close>

definition arrow_ok :: "Board \<Rightarrow> Board \<Rightarrow> bool" where
  "arrow_ok this next =
     (\<forall>y x. in_range y x \<and> cell_at this y x = CHR '' '' \<and> cell_at next y x \<noteq> CHR '' '' \<longrightarrow>
        (\<exists>c. arrow this y x (cell_at next y x) = Inr c))"

lemma arrow_cases:
  "(\<exists>c. arrow this y x n = Inr c) \<or> arrow this y x n = Inl (AssertFailed Print_unreachable)"
  by (simp add: arrow_def)

lemma car_left_board_returns:
  assumes "0 \<le> y" "y < BOARD_SIZE" "0 \<le> xx"
  shows "\<exists>r. car_left_board this next y c xx = Inr r"
  using assms
proof (induction "nat (BOARD_SIZE - xx)" arbitrary: xx)
  case 0
  then show ?case by (subst car_left_board.simps) auto
next
  case (Suc k)
  then have lt: "xx < BOARD_SIZE" by simp
  then have ir: "in_range y xx" using Suc.prems by (simp add: in_range_def)
  have "k = nat (BOARD_SIZE - (xx + 1))" using Suc.hyps(2) by simp
  from Suc.hyps(1)[OF this Suc.prems(1,2)] Suc.prems(3)
  obtain r where "car_left_board this next y c (xx + 1) = Inr r" by auto
  then show ?case
    using lt ir by (subst car_left_board.simps) (auto simp: Cell_in_range)
qed

lemma print_car_returns:
  assumes "0 \<le> y" "y < BOARD_SIZE" "0 \<le> x"
  shows "\<exists>r. print_car this y c x out = Inr r"
  using assms
proof (induction "nat (BOARD_SIZE - x)" arbitrary: x out)
  case 0
  then show ?case by (subst print_car.simps) auto
next
  case (Suc k)
  then have lt: "x < BOARD_SIZE" by simp
  then have ir: "in_range y x" using Suc.prems by (simp add: in_range_def)
  have "k = nat (BOARD_SIZE - (x + 1))" using Suc.hyps(2) by simp
  from Suc.hyps(1)[OF this Suc.prems(1,2), of "out @ [c]"] Suc.prems(3)
  obtain r where "print_car this y c (x + 1) (out @ [c]) = Inr r" by auto
  then show ?case
    using lt ir by (subst print_car.simps) (auto simp: Cell_in_range)
qed

lemma Print_row_result:
  assumes "0 \<le> y" "y < BOARD_SIZE" "0 \<le> x"
  shows "(\<exists>out'. Print_row this next y x out = Inr out') \<or>
         (Print_row this next y x out = Inl (AssertFailed Print_unreachable) \<and> \<not> arrow_ok this next)"
  using assms
proof (induction "nat (BOARD_SIZE - x)" arbitrary: x out)
  case 0
  then show ?case by (subst Print_row.simps) auto
next
  case (Suc k)
  then have lt: "x < BOARD_SIZE" by simp
  then have ir: "in_range y x" using Suc.prems by (simp add: in_range_def)
  have k: "k = nat (BOARD_SIZE - (x + 1))" using Suc.hyps(2) by simp
  have x1: "0 \<le> x + 1" using Suc.prems(3) by simp
  note IH = Suc.hyps(1)[OF k Suc.prems(1,2) x1]
  let ?c = "cell_at this y x" and ?n = "cell_at next y x"
  have unfold: "Print_row this next y x out =
     (if ?c \<noteq> ?n then
        if ?c = CHR '' '' then
          bind (arrow this y x ?n) (\<lambda>c. Print_row this next y (x + 1) (out @ [c]))
        else if ?n = CHR '' '' \<and> y = BOARD_EXIT_Y \<and> x < BOARD_SIZE - 1 then
          bind (car_left_board this next y ?c (x + 1)) (\<lambda>bCarLeftBoard.
            if bCarLeftBoard then
              bind (print_car this y ?c x out) (\<lambda>(x, out). Inr (print_exit x out))
            else Print_row this next y (x + 1) (out @ [?c]))
        else Print_row this next y (x + 1) (out @ [?c])
      else Print_row this next y (x + 1) (out @ [?c]))"
    using lt ir by (subst Print_row.simps) (simp add: Cell_in_range)
  show ?case
  proof (cases "?c \<noteq> ?n \<and> ?c = CHR '' ''")
    case True
    then have ne: "?c \<noteq> ?n" and sp: "?c = CHR '' ''" by blast+
    have u: "Print_row this next y x out =
        bind (arrow this y x ?n) (\<lambda>c. Print_row this next y (x + 1) (out @ [c]))"
      unfolding unfold if_P[OF ne] if_P[OF sp] ..
    from arrow_cases[of "this" y x ?n] show ?thesis
    proof
      assume "\<exists>c. arrow this y x ?n = Inr c"
      then obtain c where "arrow this y x ?n = Inr c" ..
      with IH[of "out @ [c]"] show ?thesis by (simp add: u)
    next
      assume a: "arrow this y x ?n = Inl (AssertFailed Print_unreachable)"
      have nn: "?n \<noteq> CHR '' ''" using ne sp by simp
      have "\<not> arrow_ok this next"
      proof
        assume "arrow_ok this next"
        with ir sp nn obtain c where "arrow this y x ?n = Inr c"
          unfolding arrow_ok_def by blast
        with a show False by simp
      qed
      with a show ?thesis by (simp add: u)
    qed
  next
    case False
    show ?thesis
    proof (cases "?c \<noteq> ?n \<and> ?n = CHR '' '' \<and> y = BOARD_EXIT_Y \<and> x < BOARD_SIZE - 1")
      case True
      from car_left_board_returns[OF Suc.prems(1,2) x1, of "this" "next" ?c]
      obtain b where b: "car_left_board this next y ?c (x + 1) = Inr b" ..
      from print_car_returns[OF Suc.prems, of "this" ?c out]
      obtain r where r: "print_car this y ?c x out = Inr r" ..
      from True have ne: "?c \<noteq> ?n"
        and cond: "?n = CHR '' '' \<and> y = BOARD_EXIT_Y \<and> x < BOARD_SIZE - 1" by blast+
      from False ne have nsp: "?c \<noteq> CHR '' ''" by blast
      have u: "Print_row this next y x out =
          bind (car_left_board this next y ?c (x + 1)) (\<lambda>bCarLeftBoard.
            if bCarLeftBoard then
              bind (print_car this y ?c x out) (\<lambda>(x, out). Inr (print_exit x out))
            else Print_row this next y (x + 1) (out @ [?c]))"
        unfolding unfold if_P[OF ne] if_not_P[OF nsp] if_P[OF cond] ..
      show ?thesis
        using IH[of "out @ [?c]"]
        by (cases b; cases r) (simp_all add: u b r)
    next
      case F2: False
      with False have "Print_row this next y x out = Print_row this next y (x + 1) (out @ [?c])"
        by (auto simp: unfold)
      with IH[of "out @ [?c]"] show ?thesis by simp
    qed
  qed
qed

lemma Print_rows_result:
  assumes "0 \<le> y"
  shows "(\<exists>out'. Print_rows indent this next y out = Inr out') \<or>
         (Print_rows indent this next y out = Inl (AssertFailed Print_unreachable) \<and> \<not> arrow_ok this next)"
  using assms
proof (induction "nat (BOARD_SIZE - y)" arbitrary: y out)
  case 0
  then show ?case by (subst Print_rows.simps) auto
next
  case (Suc k)
  then have lt: "y < BOARD_SIZE" by simp
  have k: "k = nat (BOARD_SIZE - (y + 1))" using Suc.hyps(2) by simp
  have y1: "0 \<le> y + 1" using Suc.prems by simp
  note IH = Suc.hyps(1)[OF k y1]
  have z: "(0::int) \<le> 0" by simp
  from Print_row_result[OF Suc.prems lt z, of "this" "next" "out @ indent"]
  show ?case
  proof
    assume "\<exists>out'. Print_row this next y 0 (out @ indent) = Inr out'"
    then obtain out' where "Print_row this next y 0 (out @ indent) = Inr out'" ..
    with IH[of "out' @ ''\<newline>''"] lt show ?thesis
      by (subst (1 2) Print_rows.simps) simp
  next
    assume "Print_row this next y 0 (out @ indent) = Inl (AssertFailed Print_unreachable) \<and>
      \<not> arrow_ok this next"
    with lt show ?thesis by (subst Print_rows.simps) simp
  qed
qed

lemma arrow_ok_refl: "arrow_ok b b"
  by (simp add: arrow_ok_def)

lemma Print_result:
  "(\<exists>out'. Print indent this next g = Inr (g\<lparr>stdout := out'\<rparr>)) \<or>
   (Print indent this next g = Inl (AssertFailed Print_unreachable) \<and>
      (\<exists>b. next = Some b \<and> \<not> arrow_ok this b))"
proof (cases "next")
  case None
  with Print_rows_result[of 0 indent "this" "this" "stdout g"] arrow_ok_refl[of "this"]
  show ?thesis by (auto simp: Print_def)
next
  case (Some b)
  with Print_rows_result[of 0 indent "this" b "stdout g"]
  show ?thesis by (auto simp: Print_def)
qed

section \<open>Claims about single operations\<close>

text \<open>
  C3, as the specification states it: off the board \<^verbatim>\<open>CellSafe\<close> would return the marker of an
  empty cell, the space character. It does not: at row \<open>-1\<close> of the compiled-in board the
  result is not a space.
\<close>

theorem CellSafe_off_board_counterexample:
  "CellSafe board_155 (- 1) 0 \<noteq> CHR '' ''"
  by (simp add: CellSafe_def BOARD_SIZE_def)

text \<open>
  C3, amended: for coordinates with a row or a column outside \<open>[0, BOARD_SIZE)\<close>,
  \<^verbatim>\<open>CellSafe\<close> does not fail and returns the character with code 0, as its comment says; that
  character is not the space that marks an empty cell.
\<close>

theorem CellSafe_off_board:
  assumes "x < 0 \<or> x \<ge> BOARD_SIZE \<or> y < 0 \<or> y \<ge> BOARD_SIZE"
  shows "CellSafe b y x = CHR 0x00 \<and> CellSafe b y x \<noteq> CHR '' ''"
  using assms by (simp add: CellSafe_def)

theorem CellSafe_off_board_witness:
  "((6::int) < 0 \<or> 6 \<ge> BOARD_SIZE \<or> (2::int) < 0 \<or> 2 \<ge> BOARD_SIZE) \<and>
   CellSafe board_155 2 6 = CHR 0x00 \<and> CellSafe board_155 2 6 \<noteq> CHR '' ''"
  using CellSafe_off_board [of 6 2 board_155] by (simp add: BOARD_SIZE_def)

text \<open>
  C4: \<^verbatim>\<open>CheckAddState\<close> on globals in which the list and the set have the same size, as they
  have when the program starts and after every earlier call. A board that is in the set
  leaves the globals as they are; a board that is not is added to the set and put at the end
  of the list with its origin, and nothing else changes; either way the call returns and
  the two sizes are the same afterwards.
\<close>

theorem CheckAddState_novel_or_seen:
  assumes "length (state_list g) = fcard (states_in_list g)"
  shows "(state |\<in>| states_in_list g \<longrightarrow> CheckAddState state from g = Inr g) \<and>
         (state |\<notin>| states_in_list g \<longrightarrow>
            CheckAddState state from g =
              Inr (g\<lparr>states_in_list := finsert state (states_in_list g),
                     state_list := state_list g @ [(state, from)]\<rparr>)) \<and>
         (\<exists>g'. CheckAddState state from g = Inr g' \<and>
            length (state_list g') = fcard (states_in_list g'))"
  using assms by (auto simp: CheckAddState_def Let_def fcard_finsert_if)

theorem CheckAddState_novel_or_seen_witness:
  "CheckAddState board_155 (- 1) \<lparr>state_list = [], states_in_list = {||}, stdout = []\<rparr> =
     Inr \<lparr>state_list = [(board_155, - 1)], states_in_list = {|board_155|}, stdout = []\<rparr> \<and>
   CheckAddState board_155 0 \<lparr>state_list = [(board_155, - 1)], states_in_list = {|board_155|}, stdout = []\<rparr> =
     Inr \<lparr>state_list = [(board_155, - 1)], states_in_list = {|board_155|}, stdout = []\<rparr>"
  using CheckAddState_novel_or_seen [of "\<lparr>state_list = [], states_in_list = {||}, stdout = []\<rparr>" board_155 "- 1"]
    CheckAddState_novel_or_seen [of "\<lparr>state_list = [(board_155, - 1)], states_in_list = {|board_155|}, stdout = []\<rparr>" board_155 0]
  by (simp add: fcard_finsert_if)

text \<open>
  C7: an ordinary move. The cell \<open>(y, x)\<close> is empty, the two cells after it in the scan
  direction \<open>d\<close> hold the same car, and the call is not the one at the last column of the exit
  row. Then the car occupies the \<open>L\<close> cells after \<open>(y, x)\<close> and no more, the call offers one
  board \<open>W\<close> to \<^verbatim>\<open>CheckAddState\<close> and returns the working board as it was, and \<open>W\<close> is the
  working board except in two cells: \<open>(y, x)\<close> holds the car and the far end of the car,
  \<open>L\<close> cells away, is empty.
\<close>

theorem ordinary_move_two_cells:
  assumes wf: "wf_board s" and ir: "in_range y x" and e: "Cell s y x = Inr CHR '' ''"
    and pr: "probe d s x y"
    and ord: "\<not> (d = Scan_xminus \<and> x = BOARD_SIZE - 1 \<and> y = BOARD_EXIT_Y)"
  shows "\<exists>W L car. L \<ge> 2 \<and> car \<noteq> CHR '' '' \<and> in_range (y + L * dy d) (x + L * dx d) \<and>
      (\<forall>j. 1 \<le> j \<and> j \<le> L \<longrightarrow> Cell s (y + j * dy d) (x + j * dx d) = Inr car) \<and>
      (txty_on_board d (x + (L + 1) * dx d) (y + (L + 1) * dy d) \<longrightarrow>
         Cell s (y + (L + 1) * dy d) (x + (L + 1) * dx d) \<noteq> Inr car) \<and>
      CheckMove d s x y idx_state g =
        bind_run (Some (CheckAddState W idx_state g)) (\<lambda>g'. Some (Inr (s, g'))) \<and>
      wf_board W \<and>
      Cell W y x = Inr car \<and>
      Cell W (y + L * dy d) (x + L * dx d) = Inr CHR '' '' \<and>
      (\<forall>y' x'. in_range y' x' \<and> \<not> (y' = y \<and> x' = x) \<and>
          \<not> (y' = y + L * dy d \<and> x' = x + L * dx d) \<longrightarrow> Cell W y' x' = Cell s y' x')"
proof -
  let ?car = "cell_at s (y + dy d) (x + dx d)"
  have e': "cell_at s y x = CHR '' ''" using e ir by (simp add: Cell_in_range)
  have ord': "\<not> (dx d = - 1 \<and> x = BOARD_SIZE - 1 \<and> y = BOARD_EXIT_Y)"
    using ord by (cases d) auto
  from far_end_spec[OF ir pr] obtain L where L: "L \<ge> 2"
    "far_end d s x y = (x + L * dx d, y + L * dy d)"
    "in_range (y + L * dy d) (x + L * dx d)"
    "\<forall>j. 1 \<le> j \<and> j \<le> L \<longrightarrow> cell_at s (y + j * dy d) (x + j * dx d) = ?car"
    "txty_on_board d (x + (L + 1) * dx d) (y + (L + 1) * dy d) \<longrightarrow>
         cell_at s (y + (L + 1) * dy d) (x + (L + 1) * dx d) \<noteq> ?car"
    by blast
  have ne: "?car \<noteq> CHR '' ''" using pr by (simp add: probe_def)
  have irj: "in_range (y + j * dy d) (x + j * dx d)" if "1 \<le> j \<and> j \<le> L" for j
    using that ir L(3) by (cases d) (auto simp: in_range_def)
  have span: "\<forall>j. 1 \<le> j \<and> j \<le> L \<longrightarrow> Cell s (y + j * dy d) (x + j * dx d) = Inr ?car"
    using L(4) irj by (simp add: Cell_in_range)
  have irb: "in_range (y + (L + 1) * dy d) (x + (L + 1) * dx d)"
    if "txty_on_board d (x + (L + 1) * dx d) (y + (L + 1) * dy d)"
    using that L(3) by (cases d) (auto simp: in_range_def txty_on_board_def)
  have beyond: "txty_on_board d (x + (L + 1) * dx d) (y + (L + 1) * dy d) \<longrightarrow>
         Cell s (y + (L + 1) * dy d) (x + (L + 1) * dx d) \<noteq> Inr ?car"
    using L(5) irb by (auto simp: Cell_in_range)
  let ?W = "slide d s x y"
  have wfW: "wf_board ?W" using wf by (rule wf_board_slide)
  have cW: "cell_at ?W y' x' = (if y' = y + L * dy d \<and> x' = x + L * dx d then CHR '' ''
       else if y' = y \<and> x' = x then ?car else cell_at s y' x')" if "in_range y' x'" for y' x'
  proof -
    have "cell_at ?W y' x' = cell_at (put (put s y x ?car) (y + L * dy d) (x + L * dx d) CHR '' '') y' x'"
      by (simp add: slide_def L(2))
    also have "\<dots> = (if y' = y + L * dy d \<and> x' = x + L * dx d then CHR '' ''
        else cell_at (put s y x ?car) y' x')"
      using wf_board_put[OF wf] L(3) that by (rule cell_at_put)
    also have "cell_at (put s y x ?car) y' x' = (if y' = y \<and> x' = x then ?car else cell_at s y' x')"
      using wf ir that by (rule cell_at_put)
    finally show ?thesis .
  qed
  have W1: "Cell ?W y x = Inr ?car"
    using cW[OF ir] far_end_neq[OF L(1), of y d x] ir by (auto simp: Cell_in_range)
  have W2: "Cell ?W (y + L * dy d) (x + L * dx d) = Inr CHR '' ''"
    using cW[OF L(3)] L(3) by (simp add: Cell_in_range)
  have W3: "\<forall>y' x'. in_range y' x' \<and> \<not> (y' = y \<and> x' = x) \<and>
          \<not> (y' = y + L * dy d \<and> x' = x + L * dx d) \<longrightarrow> Cell ?W y' x' = Cell s y' x'"
    using cW by (auto simp: Cell_in_range)
  from L(1) ne L(3) span beyond CheckMove_ordinary[OF wf ir e' pr ord', of idx_state g] wfW W1 W2 W3
  show ?thesis by blast
qed


theorem ordinary_move_two_cells_witness:
  "wf_board board_155 \<and> in_range 3 0 \<and> Cell board_155 3 0 = Inr CHR '' '' \<and>
   probe Scan_yplus board_155 0 3 \<and>
   \<not> (Scan_yplus = Scan_xminus \<and> (0::int) = BOARD_SIZE - 1 \<and> (3::int) = BOARD_EXIT_Y) \<and>
   (\<exists>W L car. L \<ge> 2 \<and> car \<noteq> CHR '' '' \<and> in_range (3 + L * dy Scan_yplus) (0 + L * dx Scan_yplus) \<and>
      (\<forall>j. 1 \<le> j \<and> j \<le> L \<longrightarrow>
         Cell board_155 (3 + j * dy Scan_yplus) (0 + j * dx Scan_yplus) = Inr car) \<and>
      (txty_on_board Scan_yplus (0 + (L + 1) * dx Scan_yplus) (3 + (L + 1) * dy Scan_yplus) \<longrightarrow>
         Cell board_155 (3 + (L + 1) * dy Scan_yplus) (0 + (L + 1) * dx Scan_yplus) \<noteq> Inr car) \<and>
      CheckMove Scan_yplus board_155 0 3 0
          \<lparr>state_list = [(board_155, - 1)], states_in_list = {|board_155|}, stdout = []\<rparr> =
        bind_run (Some (CheckAddState W 0
          \<lparr>state_list = [(board_155, - 1)], states_in_list = {|board_155|}, stdout = []\<rparr>))
          (\<lambda>g'. Some (Inr (board_155, g'))) \<and>
      wf_board W \<and>
      Cell W 3 0 = Inr car \<and>
      Cell W (3 + L * dy Scan_yplus) (0 + L * dx Scan_yplus) = Inr CHR '' '' \<and>
      (\<forall>y' x'. in_range y' x' \<and> \<not> (y' = 3 \<and> x' = 0) \<and>
          \<not> (y' = 3 + L * dy Scan_yplus \<and> x' = 0 + L * dx Scan_yplus) \<longrightarrow>
          Cell W y' x' = Cell board_155 y' x'))"
proof -
  have h1: "wf_board board_155" by code_simp
  have h2: "in_range 3 0" by code_simp
  have h3: "Cell board_155 3 0 = Inr CHR '' ''" by code_simp
  have h4: "probe Scan_yplus board_155 0 3" by code_simp
  have h5: "\<not> (Scan_yplus = Scan_xminus \<and> (0::int) = BOARD_SIZE - 1 \<and> (3::int) = BOARD_EXIT_Y)"
    by simp
  from ordinary_move_two_cells [OF h1 h2 h3 h4 h5] h1 h2 h3 h4 h5
  show ?thesis by blast
qed

definition lane_board :: Board where
  "lane_board = [''      '', ''      '', ''   AA '', ''      '', ''      '', ''      '']"

text \<open>
  C2, as the specification states it: the board with the car gone would be registered beside
  the board with the car moved one cell. At \<open>lane_board\<close>, where car \<open>A\<close> can move to the last
  column of the exit row, the call registers the board without \<open>A\<close> and nothing else: the
  board with \<open>A\<close> in columns 4 and 5 is not in the set afterwards.
\<close>

theorem exit_lane_counterexample:
  "CheckMove Scan_xminus lane_board 5 2 0
      \<lparr>state_list = [(lane_board, - 1)], states_in_list = {|lane_board|}, stdout = []\<rparr> =
    Some (Inr (lane_board,
      \<lparr>state_list = [(lane_board, - 1),
                      ([''      '', ''      '', ''      '', ''      '', ''      '', ''      ''], 0)],
        states_in_list = {|[''      '', ''      '', ''      '', ''      '', ''      '', ''      ''],
                           lane_board|},
        stdout = []\<rparr>)) \<and>
   [''      '', ''      '', ''    AA'', ''      '', ''      '', ''      ''] |\<notin>|
     {|[''      '', ''      '', ''      '', ''      '', ''      '', ''      ''], lane_board|}"
  by code_simp


lemma CheckAddState_result:
  assumes "CheckAddState b i g = Inr g'"
  shows "states_in_list g' = finsert b (states_in_list g) \<and> stdout g' = stdout g \<and>
     state_list g' = (if b |\<in>| states_in_list g then state_list g else state_list g @ [(b, i)]) \<and>
     (b |\<notin>| states_in_list g \<longrightarrow> length (state_list g') = fcard (states_in_list g'))"
  using assms by (auto simp: CheckAddState_def Let_def finsert_absorb split: if_splits)

text \<open>
  C2, amended: when a car other than \<open>X\<close> can move into the last column of the exit row, the
  call registers one board, the board from which the whole car is gone, and returns the
  working board as it was. The board on which the car has moved one cell is not
  registered by the call.
\<close>

theorem exit_lane_registers_vacated_board:
  assumes wf: "wf_board s" and e: "Cell s BOARD_EXIT_Y (BOARD_SIZE - 1) = Inr CHR '' ''"
    and pr: "probe Scan_xminus s (BOARD_SIZE - 1) BOARD_EXIT_Y"
    and other: "Cell s BOARD_EXIT_Y (BOARD_SIZE - 2) \<noteq> Inr CHR ''X''"
  shows "\<exists>V tx car. 0 \<le> tx \<and> tx \<le> BOARD_SIZE - 3 \<and> car \<noteq> CHR '' '' \<and> car \<noteq> CHR ''X'' \<and>
      (\<forall>j. tx \<le> j \<and> j \<le> BOARD_SIZE - 2 \<longrightarrow> Cell s BOARD_EXIT_Y j = Inr car) \<and>
      (0 < tx \<longrightarrow> Cell s BOARD_EXIT_Y (tx - 1) \<noteq> Inr car) \<and>
      CheckMove Scan_xminus s (BOARD_SIZE - 1) BOARD_EXIT_Y idx_state g =
        bind_run (Some (CheckAddState V idx_state g)) (\<lambda>g'. Some (Inr (s, g'))) \<and>
      wf_board V \<and>
      (\<forall>y' x'. in_range y' x' \<longrightarrow>
         Cell V y' x' = (if y' = BOARD_EXIT_Y \<and> tx \<le> x' then Inr CHR '' '' else Cell s y' x')) \<and>
      (\<forall>W s' g'. Cell W BOARD_EXIT_Y (BOARD_SIZE - 1) = Inr car \<and> W |\<notin>| states_in_list g \<and>
         CheckMove Scan_xminus s (BOARD_SIZE - 1) BOARD_EXIT_Y idx_state g = Some (Inr (s', g')) \<longrightarrow>
         s' = s \<and> W |\<notin>| states_in_list g')"
proof -
  let ?car = "cell_at s 2 4"
  have n: "BOARD_SIZE - 1 = 5" "BOARD_EXIT_Y = 2" "BOARD_SIZE - 2 = 4" "BOARD_SIZE - 3 = 3"
    by (simp_all add: BOARD_SIZE_def BOARD_EXIT_Y_def)
  have ir4: "in_range 2 4" by (simp add: in_range_def BOARD_SIZE_def)
  have e': "cell_at s 2 5 = CHR '' ''" using e by (simp add: n Cell_in_range in_range_exit)
  have pr': "probe Scan_xminus s 5 2" using pr by (simp add: n)
  have other': "?car \<noteq> CHR ''X''" using other by (simp add: n Cell_in_range ir4)
  have ne: "?car \<noteq> CHR '' ''" using pr' by (simp add: probe_def)
  from exit_lane_span[OF pr'] obtain tx where tx: "0 \<le> tx" "tx \<le> 3"
    "far_end Scan_xminus s 5 2 = (tx, 2)"
    "\<forall>j. tx \<le> j \<and> j \<le> 4 \<longrightarrow> cell_at s 2 j = ?car"
    "0 < tx \<longrightarrow> cell_at s 2 (tx - 1) \<noteq> ?car"
    by blast
  have irj: "in_range 2 j" if "0 \<le> j" "j \<le> 5" for j
    using that by (simp add: in_range_def BOARD_SIZE_def)
  have span: "\<forall>j. tx \<le> j \<and> j \<le> 4 \<longrightarrow> Cell s 2 j = Inr ?car"
  proof (intro allI impI)
    fix j assume j: "tx \<le> j \<and> j \<le> 4"
    then have "in_range 2 j" using tx(1) by (intro irj) simp_all
    moreover have "cell_at s 2 j = ?car" using tx(4) j by blast
    ultimately show "Cell s 2 j = Inr ?car" by (simp add: Cell_in_range)
  qed
  have before: "0 < tx \<longrightarrow> Cell s 2 (tx - 1) \<noteq> Inr ?car"
  proof
    assume p: "0 < tx"
    then have "in_range 2 (tx - 1)" using tx(2) by (intro irj) simp_all
    with tx(5) p show "Cell s 2 (tx - 1) \<noteq> Inr ?car" by (simp add: Cell_in_range)
  qed
  from vacate_spec[OF wf pr'] have v: "wf_board (vacate s)"
    "\<forall>y' x'. in_range y' x' \<longrightarrow> cell_at (vacate s) y' x' =
        (if y' = 2 \<and> tx \<le> x' then CHR '' '' else cell_at s y' x')"
    by (simp_all add: tx(3))
  have vc: "\<forall>y' x'. in_range y' x' \<longrightarrow>
         Cell (vacate s) y' x' = (if y' = 2 \<and> tx \<le> x' then Inr CHR '' '' else Cell s y' x')"
    using v(2) by (simp add: Cell_in_range)
  have cm: "CheckMove Scan_xminus s 5 2 idx_state g =
        bind_run (Some (CheckAddState (vacate s) idx_state g)) (\<lambda>g'. Some (Inr (s, g')))"
    by (rule CheckMove_exit_other[OF wf e' pr' other'])
  have notreg: "s' = s \<and> W |\<notin>| states_in_list g'"
    if W: "Cell W 2 5 = Inr ?car" "W |\<notin>| states_in_list g"
      and r: "CheckMove Scan_xminus s 5 2 idx_state g = Some (Inr (s', g'))" for W s' g'
  proof -
    from r cm obtain g1 where g1: "CheckAddState (vacate s) idx_state g = Inr g1" "s' = s" "g' = g1"
      by (cases "CheckAddState (vacate s) idx_state g") auto
    have "Cell (vacate s) 2 5 = Inr CHR '' ''" using vc in_range_exit tx(2) by simp
    with W(1) ne have "W \<noteq> vacate s" by auto
    with CheckAddState_result[OF g1(1)] W(2) g1(2,3) show ?thesis by simp
  qed
  show ?thesis
    unfolding n
    apply (rule exI[of _ "vacate s"], rule exI[of _ tx], rule exI[of _ ?car])
    using tx(1,2) ne other' span before cm v(1) vc notreg by blast
qed

theorem exit_lane_registers_vacated_board_witness:
  "wf_board lane_board \<and> Cell lane_board BOARD_EXIT_Y (BOARD_SIZE - 1) = Inr CHR '' '' \<and>
   probe Scan_xminus lane_board (BOARD_SIZE - 1) BOARD_EXIT_Y \<and>
   Cell lane_board BOARD_EXIT_Y (BOARD_SIZE - 2) \<noteq> Inr CHR ''X'' \<and>
   (\<exists>V tx car. 0 \<le> tx \<and> tx \<le> BOARD_SIZE - 3 \<and> car \<noteq> CHR '' '' \<and> car \<noteq> CHR ''X'' \<and>
      (\<forall>j. tx \<le> j \<and> j \<le> BOARD_SIZE - 2 \<longrightarrow> Cell lane_board BOARD_EXIT_Y j = Inr car) \<and>
      (0 < tx \<longrightarrow> Cell lane_board BOARD_EXIT_Y (tx - 1) \<noteq> Inr car) \<and>
      CheckMove Scan_xminus lane_board (BOARD_SIZE - 1) BOARD_EXIT_Y 0
          \<lparr>state_list = [(lane_board, - 1)], states_in_list = {|lane_board|}, stdout = []\<rparr> =
        bind_run (Some (CheckAddState V 0
          \<lparr>state_list = [(lane_board, - 1)], states_in_list = {|lane_board|}, stdout = []\<rparr>))
          (\<lambda>g'. Some (Inr (lane_board, g'))) \<and>
      wf_board V \<and>
      (\<forall>y' x'. in_range y' x' \<longrightarrow>
         Cell V y' x' =
           (if y' = BOARD_EXIT_Y \<and> tx \<le> x' then Inr CHR '' '' else Cell lane_board y' x')))"
proof -
  have h1: "wf_board lane_board" by code_simp
  have h2: "Cell lane_board BOARD_EXIT_Y (BOARD_SIZE - 1) = Inr CHR '' ''" by code_simp
  have h3: "probe Scan_xminus lane_board (BOARD_SIZE - 1) BOARD_EXIT_Y" by code_simp
  have h4: "Cell lane_board BOARD_EXIT_Y (BOARD_SIZE - 2) \<noteq> Inr CHR ''X''" by code_simp
  from exit_lane_registers_vacated_board [OF h1 h2 h3 h4,
      of 0 "\<lparr>state_list = [(lane_board, - 1)], states_in_list = {|lane_board|}, stdout = []\<rparr>"]
    h1 h2 h3 h4
  show ?thesis by blast
qed

section \<open>The solution printer\<close>

lemma Print_globals:
  assumes "Print indent this next g = Inr g'"
  shows "state_list g' = state_list g \<and> states_in_list g' = states_in_list g"
  using assms Print_result[of indent "this" "next" g] by auto

lemma Print_halt:
  assumes "Print indent this next g = Inl h"
  shows "h = AssertFailed Print_unreachable"
  using assms Print_result[of indent "this" "next" g] by auto

definition printed :: "globals \<Rightarrow> (int \<times> globals) result \<Rightarrow> bool" where
  "printed g r =
     (case r of Inl h \<Rightarrow> h = BadIndex \<or> h = AssertFailed Print_unreachable
      | Inr (n, g') \<Rightarrow> state_list g' = state_list g \<and> states_in_list g' = states_in_list g)"

lemma PrintSolutionRecursive_result:
  assumes "PrintSolutionRecursive i next g = Some r"
  shows "printed g r"
proof (rule PrintSolutionRecursive.raw_induct[where P = "\<lambda>i next g r. printed g r", OF _ assms])
  fix psr i "next" g r
  assume 1: "\<And>i next g r. psr i next g = Some r \<Longrightarrow> printed g r"
    "(if i < 0 then Some (Inr (0, g))
      else if \<not> nat i < length (state_list g) then Some (Inl BadIndex)
      else
        let cur = fst (state_list g ! nat i)
        in bind_run (psr (snd (state_list g ! nat i)) (Some cur) g)
             (\<lambda>(n, g).
                let step_number = n + 1;
                    g = printf (''Solution step '' @ string_of_int step_number @ ''\<newline>'') g
                in Some (bind (Print ''  '' cur next g)
                     (\<lambda>g. Inr (step_number, printf ''\<newline>'' g))))) = Some r"
  show "printed g r"
  proof (cases "i < 0")
    case True
    with 1(2) show ?thesis by (auto simp: printed_def)
  next
    case False
    show ?thesis
    proof (cases "nat i < length (state_list g)")
      case oob: False
      with False 1(2) show ?thesis by (auto simp: printed_def)
    next
      case True
      let ?cur = "fst (state_list g ! nat i)"
      let ?rec = "psr (snd (state_list g ! nat i)) (Some ?cur) g"
      from 1(2) False True have eq: "bind_run ?rec
             (\<lambda>(n, g).
                let step_number = n + 1;
                    g = printf (''Solution step '' @ string_of_int step_number @ ''\<newline>'') g
                in Some (bind (Print ''  '' ?cur next g)
                     (\<lambda>g. Inr (step_number, printf ''\<newline>'' g)))) = Some r"
        by (simp add: Let_def)
      then obtain r1 where r1: "?rec = Some r1" by (cases ?rec) auto
      note IH = 1(1)[OF r1]
      show ?thesis
      proof (cases r1)
        case (Inl h)
        with eq r1 IH show ?thesis by (auto simp: printed_def)
      next
        case (Inr p)
        obtain n g1 where p: "p = (n, g1)" by (cases p)
        let ?g2 = "printf (''Solution step '' @ string_of_int (n + 1) @ ''\<newline>'') g1"
        from eq r1 Inr p have r: "r = bind (Print ''  '' ?cur next ?g2)
                     (\<lambda>g. Inr (n + 1, printf ''\<newline>'' g))"
          by (simp add: Let_def)
        from IH Inr p have g1: "state_list g1 = state_list g \<and> states_in_list g1 = states_in_list g"
          by (simp add: printed_def)
        show ?thesis
        proof (cases "Print ''  '' ?cur next ?g2")
          case (Inl h)
          with r Print_halt[OF Inl] show ?thesis by (simp add: printed_def)
        next
          case (Inr g3)
          with r Print_globals[OF Inr] g1 show ?thesis by (simp add: printf_def printed_def)
        qed
      qed
    qed
  qed
qed

lemma PrintSolutionAndQuit_result:
  assumes "PrintSolutionAndQuit g = Some r"
  shows "(\<exists>w. r = Inl (Exited 0 w) \<and> state_list w = state_list g \<and> states_in_list w = states_in_list g)
         \<or> r = Inl BadIndex \<or> r = Inl (AssertFailed Print_unreachable)"
proof -
  let ?rec = "PrintSolutionRecursive (int (length (state_list g)) - 1) None g"
  from assms obtain r1 where r1: "?rec = Some r1"
    by (cases ?rec) (auto simp: PrintSolutionAndQuit_def)
  from PrintSolutionRecursive_result[OF r1] assms r1 show ?thesis
    by (cases r1) (auto simp: PrintSolutionAndQuit_def printed_def)
qed


section \<open>How a call of CheckMove can stop the process\<close>

lemma CheckAddState_halt:
  "CheckAddState b i g = Inl h \<Longrightarrow> h = AssertFailed List_set_size"
  by (auto simp: CheckAddState_def Let_def split: if_splits)

lemma set_cells_halt:
  "set_cells s y xx x c = Inl h \<Longrightarrow> h = AssertFailed SetCell_bounds"
proof (induction s y xx x c rule: set_cells.induct)
  case (1 s y xx x c)
  from "1.prems" have le: "xx \<le> x"
    by (subst (asm) set_cells.simps) (auto split: if_splits)
  show ?case
  proof (cases "SetCell s y xx c")
    case (Inl h')
    with "1.prems" le have "h = h'" by (subst (asm) set_cells.simps) simp
    with Inl show ?thesis by (auto simp: SetCell_def split: if_splits)
  next
    case (Inr s')
    with "1.prems" le have "set_cells s' y (xx + 1) x c = Inl h"
      by (subst (asm) set_cells.simps) simp
    from "1.IH"[OF le Inr this] show ?thesis .
  qed
qed

lemma offer_Exited:
  assumes "offer d s1 x y tx car idx_state g = Some (Inl (Exited n w))"
  shows "dx d = - 1 \<and> x = BOARD_SIZE - 1 \<and> y = BOARD_EXIT_Y \<and> car = CHR ''X'' \<and> n = 0 \<and>
         s1 |\<in>| states_in_list w"
proof (cases "dx d = - 1 \<and> x = BOARD_SIZE - 1 \<and> y = BOARD_EXIT_Y")
  case False
  with assms show ?thesis
    by (cases "CheckAddState s1 idx_state g") (auto simp: offer_def dest: CheckAddState_halt)
next
  case True
  show ?thesis
  proof (cases "car = CHR ''X''")
    case goal: True
    from assms True goal obtain g1 where g1: "CheckAddState s1 idx_state g = Inr g1"
      "(PrintSolutionAndQuit g1 :: (Board \<times> globals) run) = Some (Inl (Exited n w))"
      by (cases "CheckAddState s1 idx_state g") (auto simp: offer_def dest: CheckAddState_halt)
    from PrintSolutionAndQuit_result[OF g1(2)] have "n = 0" "states_in_list w = states_in_list g1"
      by auto
    with CheckAddState_result[OF g1(1)] True goal show ?thesis by simp
  next
    case False
    from assms True False have a: "bind_run (Some (set_cells s1 y (tx + 1) x CHR '' '')) (\<lambda>s.
          bind_run (Some (CheckAddState s idx_state g)) (\<lambda>g.
          bind_run (Some (set_cells s y (tx + 1) x car)) (\<lambda>s.
            Some (Inr (s, g))))) = Some (Inl (Exited n w))"
      by (simp add: offer_def)
    show ?thesis
    proof (cases "set_cells s1 y (tx + 1) x CHR '' ''")
      case (Inl h)
      with a set_cells_halt[OF Inl] show ?thesis by simp
    next
      case s2: (Inr s2)
      show ?thesis
      proof (cases "CheckAddState s2 idx_state g")
        case (Inl h)
        with a s2 CheckAddState_halt[OF Inl] show ?thesis by simp
      next
        case g1: (Inr g1)
        show ?thesis
        proof (cases "set_cells s2 y (tx + 1) x car")
          case (Inl h)
          with a s2 g1 set_cells_halt[OF Inl] show ?thesis by simp
        next
          case (Inr s3)
          with a s2 g1 show ?thesis by simp
        qed
      qed
    qed
  qed
qed

lemma offer_no_bounds:
  assumes ir: "in_range y x" and tx: "0 \<le> tx"
    and h: "offer d s1 x y tx car idx_state g = Some (Inl h)"
  shows "h \<noteq> AssertFailed Cell_bounds \<and> h \<noteq> AssertFailed SetCell_bounds"
proof (cases "dx d = - 1 \<and> x = BOARD_SIZE - 1 \<and> y = BOARD_EXIT_Y")
  case False
  with h show ?thesis
    by (cases "CheckAddState s1 idx_state g") (auto simp: offer_def dest: CheckAddState_halt)
next
  case True
  show ?thesis
  proof (cases "car = CHR ''X''")
    case goal: True
    show ?thesis
    proof (cases "CheckAddState s1 idx_state g")
      case (Inl h')
      with h True goal CheckAddState_halt[OF Inl] show ?thesis by (auto simp: offer_def)
    next
      case (Inr g1)
      with h True goal have "(PrintSolutionAndQuit g1 :: (Board \<times> globals) run) = Some (Inl h)"
        by (simp add: offer_def)
      from PrintSolutionAndQuit_result[OF this] show ?thesis by auto
    qed
  next
    case False
    from h True False have a: "bind_run (Some (set_cells s1 y (tx + 1) x CHR '' '')) (\<lambda>s.
          bind_run (Some (CheckAddState s idx_state g)) (\<lambda>g.
          bind_run (Some (set_cells s y (tx + 1) x car)) (\<lambda>s.
            Some (Inr (s, g))))) = Some (Inl h)"
      by (simp add: offer_def)
    have p: "0 \<le> y" "y < BOARD_SIZE" "0 \<le> tx + 1" "x < BOARD_SIZE"
      using ir tx by (simp_all add: in_range_def)
    from set_cells_spec[OF p, of s1 "CHR '' ''"] obtain s2
      where s2: "set_cells s1 y (tx + 1) x CHR '' '' = Inr s2" by blast
    from set_cells_spec[OF p, of s2 car] obtain s3
      where s3: "set_cells s2 y (tx + 1) x car = Inr s3" by blast
    from a s2 s3 show ?thesis
      by (cases "CheckAddState s2 idx_state g") (auto dest: CheckAddState_halt)
  qed
qed

lemma CheckMove_halt_offer:
  assumes ir: "in_range y x" and h: "CheckMove d s x y idx_state g = Some (Inl h)"
  shows "probe d s x y \<and>
     offer d (slide d s x y) x y (fst (far_end d s x y)) (cell_at s (y + dy d) (x + dx d)) idx_state g
       = Some (Inl h)"
proof (cases "probe d s x y")
  case False
  from CheckMove_no_car[OF ir False, of idx_state g] h show ?thesis by simp
next
  case True
  let ?o = "offer d (slide d s x y) x y (fst (far_end d s x y)) (cell_at s (y + dy d) (x + dx d)) idx_state g"
  from h CheckMove_car[OF ir True, of idx_state g] True show ?thesis
    by (cases ?o) (auto simp: bind_run_def split: sum.splits)
qed


text \<open>
  C9: for a cell \<open>(y, x)\<close> of the board, whatever the board holds, no call of \<^verbatim>\<open>CheckMove\<close>
  in any of the four directions stops at the bounds assertion of \<^verbatim>\<open>Cell\<close> or of \<^verbatim>\<open>SetCell\<close>.
  In the model an access outside the board makes the whole call return that assertion, so
  this says that every access of the call is inside the board.
\<close>

theorem CheckMove_within_bounds:
  assumes ir: "in_range y x"
  shows "CheckMove d s x y idx_state g \<noteq> Some (Inl (AssertFailed Cell_bounds)) \<and>
         CheckMove d s x y idx_state g \<noteq> Some (Inl (AssertFailed SetCell_bounds))"
proof -
  have "h \<noteq> AssertFailed Cell_bounds \<and> h \<noteq> AssertFailed SetCell_bounds"
    if h: "CheckMove d s x y idx_state g = Some (Inl h)" for h
  proof -
    from CheckMove_halt_offer[OF ir h] have pr: "probe d s x y"
      and o: "offer d (slide d s x y) x y (fst (far_end d s x y))
                (cell_at s (y + dy d) (x + dx d)) idx_state g = Some (Inl h)"
      by auto
    from far_end_spec[OF ir pr] obtain L where "far_end d s x y = (x + L * dx d, y + L * dy d)"
      "in_range (y + L * dy d) (x + L * dx d)" by blast
    then have "0 \<le> fst (far_end d s x y)" by (simp add: in_range_def)
    from offer_no_bounds[OF ir this o] show ?thesis .
  qed
  then show ?thesis by blast
qed

theorem CheckMove_within_bounds_witness:
  "in_range 2 5 \<and>
   CheckMove Scan_xminus lane_board 5 2 0
      \<lparr>state_list = [(lane_board, - 1)], states_in_list = {|lane_board|}, stdout = []\<rparr>
     \<noteq> Some (Inl (AssertFailed Cell_bounds)) \<and>
   CheckMove Scan_xminus lane_board 5 2 0
      \<lparr>state_list = [(lane_board, - 1)], states_in_list = {|lane_board|}, stdout = []\<rparr>
     \<noteq> Some (Inl (AssertFailed SetCell_bounds))"
  using CheckMove_within_bounds [OF in_range_exit, of Scan_xminus lane_board 0
      "\<lparr>state_list = [(lane_board, - 1)], states_in_list = {|lane_board|}, stdout = []\<rparr>"]
    in_range_exit
  by simp

text \<open>
  C10: a call of \<^verbatim>\<open>CheckMove\<close> ends the process through \<^verbatim>\<open>exit\<close> only when it scans towards
  lower \<open>x\<close> from the last cell of the exit row, so that the car moves to the right into that
  cell, and the car is \<open>X\<close>; the status is 0. The board \<open>W\<close> that it has handed to
  \<^verbatim>\<open>CheckAddState\<close> by then, and that is in the set when the process ends, is the working
  board with \<open>X\<close> moved one cell. On the working board \<open>X\<close> occupies the cells
  from \<open>tx\<close> to the last column but one and no cell before \<open>tx\<close>; on \<open>W\<close> the cell \<open>tx\<close> is
  empty, \<open>X\<close> occupies every cell after it up to the last column, and every other cell is as
  it was. So \<open>X\<close> is whole on \<open>W\<close> and ends at the last column: its cells are not erased.
\<close>

theorem win_only_by_goal_car_at_exit:
  assumes wf: "wf_board s" and ir: "in_range y x"
    and ex: "CheckMove d s x y idx_state g = Some (Inl (Exited n w))"
  shows "d = Scan_xminus \<and> x = BOARD_SIZE - 1 \<and> y = BOARD_EXIT_Y \<and> n = 0 \<and>
     (\<exists>W tx. 0 \<le> tx \<and> tx \<le> BOARD_SIZE - 3 \<and>
        (\<forall>j. tx \<le> j \<and> j \<le> BOARD_SIZE - 2 \<longrightarrow> Cell s BOARD_EXIT_Y j = Inr CHR ''X'') \<and>
        (0 < tx \<longrightarrow> Cell s BOARD_EXIT_Y (tx - 1) \<noteq> Inr CHR ''X'') \<and>
        (\<exists>g3. CheckAddState W idx_state g = Inr g3 \<and>
           state_list w = state_list g3 \<and> states_in_list w = states_in_list g3) \<and>
        W |\<in>| states_in_list w \<and> wf_board W \<and>
        (\<forall>j. tx < j \<and> j \<le> BOARD_SIZE - 1 \<longrightarrow> Cell W BOARD_EXIT_Y j = Inr CHR ''X'') \<and>
        Cell W BOARD_EXIT_Y tx = Inr CHR '' '' \<and>
        (\<forall>y' x'. in_range y' x' \<and> \<not> (y' = BOARD_EXIT_Y \<and> (x' = tx \<or> x' = BOARD_SIZE - 1)) \<longrightarrow>
           Cell W y' x' = Cell s y' x'))"
proof -
  have n: "BOARD_SIZE - 1 = 5" "BOARD_EXIT_Y = 2" "BOARD_SIZE - 2 = 4" "BOARD_SIZE - 3 = 3"
    by (simp_all add: BOARD_SIZE_def BOARD_EXIT_Y_def)
  let ?W = "slide d s x y"
  from CheckMove_halt_offer[OF ir ex] have pr: "probe d s x y"
    and o: "offer d ?W x y (fst (far_end d s x y))
              (cell_at s (y + dy d) (x + dx d)) idx_state g = Some (Inl (Exited n w))"
    by auto
  from offer_Exited[OF o] have f: "dx d = - 1" "x = 5" "y = 2"
    "cell_at s (y + dy d) (x + dx d) = CHR ''X''" "n = 0" "?W |\<in>| states_in_list w"
    unfolding n by blast+
  from f(1) have d: "d = Scan_xminus" by (cases d) auto
  from f(4) d f(2,3) have car: "cell_at s 2 4 = CHR ''X''" by simp
  from pr d f(2,3) have pr': "probe Scan_xminus s 5 2" by simp
  from exit_lane_span[OF pr'] obtain tx where tx: "0 \<le> tx" "tx \<le> 3"
    "far_end Scan_xminus s 5 2 = (tx, 2)"
    "\<forall>j. tx \<le> j \<and> j \<le> 4 \<longrightarrow> cell_at s 2 j = cell_at s 2 4"
    "0 < tx \<longrightarrow> cell_at s 2 (tx - 1) \<noteq> cell_at s 2 4"
    by blast
  have irj: "in_range 2 j" if "0 \<le> j" "j \<le> 5" for j
    using that by (simp add: in_range_def BOARD_SIZE_def)
  have cj: "cell_at s 2 j = CHR ''X''" if "tx \<le> j" "j \<le> 4" for j
    using tx(4) that car by metis
  have before: "0 < tx \<longrightarrow> Cell s 2 (tx - 1) \<noteq> Inr CHR ''X''"
  proof
    assume p: "0 < tx"
    then have "in_range 2 (tx - 1)" using tx(2) by (intro irj) simp_all
    with tx(5) p car show "Cell s 2 (tx - 1) \<noteq> Inr CHR ''X''" by (simp add: Cell_in_range)
  qed
  have span: "\<forall>j. tx \<le> j \<and> j \<le> 4 \<longrightarrow> Cell s 2 j = Inr CHR ''X''"
  proof (intro allI impI)
    fix j assume j: "tx \<le> j \<and> j \<le> 4"
    then have "in_range 2 j" using tx(1) by (intro irj) simp_all
    with cj[of j] j show "Cell s 2 j = Inr CHR ''X''" by (simp add: Cell_in_range)
  qed
  have exc: "dx d = - 1 \<and> x = BOARD_SIZE - 1 \<and> y = BOARD_EXIT_Y"
    using f(1,2,3) by (simp add: n)
  from CheckMove_exit_goal[OF ir pr exc f(4), of idx_state g] ex
  obtain g3 where g3: "CheckAddState ?W idx_state g = Inr g3"
    "(PrintSolutionAndQuit g3 :: (Board \<times> globals) run) = Some (Inl (Exited n w))"
    by (cases "CheckAddState ?W idx_state g") (auto dest: CheckAddState_halt)
  from PrintSolutionAndQuit_result[OF g3(2)]
  have lw: "state_list w = state_list g3" "states_in_list w = states_in_list g3" by auto
  with g3(1) have reg: "\<exists>g3. CheckAddState ?W idx_state g = Inr g3 \<and>
           state_list w = state_list g3 \<and> states_in_list w = states_in_list g3"
    by blast
  have W: "?W = slide Scan_xminus s 5 2" using d f(2,3) by simp
  have wfW: "wf_board ?W" using wf by (rule wf_board_slide)
  note sc = slide_exit_cells[OF wf tx(3) tx(1,2)]
  have W1: "\<forall>j. tx < j \<and> j \<le> 5 \<longrightarrow> Cell ?W 2 j = Inr CHR ''X''"
  proof (intro allI impI)
    fix j assume j: "tx < j \<and> j \<le> 5"
    then have i: "in_range 2 j" using tx(1) by (intro irj) simp_all
    show "Cell ?W 2 j = Inr CHR ''X''"
    proof (cases "j = 5")
      case True
      with sc[OF i] tx(2) car i show ?thesis by (simp add: W Cell_in_range)
    next
      case False
      with j have "tx \<le> j" "j \<le> 4" by simp_all
      from cj[OF this] sc[OF i] j False i show ?thesis by (simp add: W Cell_in_range)
    qed
  qed
  have W2: "Cell ?W 2 tx = Inr CHR '' ''"
    using sc[OF irj[of tx]] tx(1,2) irj[of tx] by (simp add: W Cell_in_range)
  have W3: "\<forall>y' x'. in_range y' x' \<and> \<not> (y' = 2 \<and> (x' = tx \<or> x' = 5)) \<longrightarrow>
           Cell ?W y' x' = Cell s y' x'"
    using sc by (auto simp: W Cell_in_range)
  show ?thesis
    unfolding n using d f(2,3,5,6) tx(1,2) span before reg wfW W1 W2 W3 by blast
qed


definition goal_board :: Board where
  "goal_board = [''      '', ''      '', ''   XX '', ''      '', ''      '', ''      '']"

definition goal_exit :: globals where
  "goal_exit =
     \<lparr>state_list = [(goal_board, - 1),
                     ([''      '', ''      '', ''    XX'', ''      '', ''      '', ''      ''], 0)],
      states_in_list = {|[''      '', ''      '', ''    XX'', ''      '', ''      '', ''      ''],
                         goal_board|},
      stdout = ''Solution step 1\<newline>        \<newline>        \<newline>     XX>\<newline>        \<newline>        \<newline>        \<newline>\<newline>Solution step 2\<newline>        \<newline>        \<newline>      XX\<newline>        \<newline>        \<newline>        \<newline>\<newline>''\<rparr>"

theorem win_only_by_goal_car_at_exit_witness:
  "wf_board goal_board \<and> in_range 2 5 \<and>
   CheckMove Scan_xminus goal_board 5 2 0
      \<lparr>state_list = [(goal_board, - 1)], states_in_list = {|goal_board|}, stdout = []\<rparr> =
     Some (Inl (Exited 0 goal_exit)) \<and>
   (\<exists>W tx. 0 \<le> tx \<and> tx \<le> BOARD_SIZE - 3 \<and>
        (\<forall>j. tx \<le> j \<and> j \<le> BOARD_SIZE - 2 \<longrightarrow> Cell goal_board BOARD_EXIT_Y j = Inr CHR ''X'') \<and>
        (0 < tx \<longrightarrow> Cell goal_board BOARD_EXIT_Y (tx - 1) \<noteq> Inr CHR ''X'') \<and>
        (\<exists>g3. CheckAddState W 0
             \<lparr>state_list = [(goal_board, - 1)], states_in_list = {|goal_board|}, stdout = []\<rparr> = Inr g3 \<and>
           state_list goal_exit = state_list g3 \<and> states_in_list goal_exit = states_in_list g3) \<and>
        W |\<in>| states_in_list goal_exit \<and> wf_board W \<and>
        (\<forall>j. tx < j \<and> j \<le> BOARD_SIZE - 1 \<longrightarrow> Cell W BOARD_EXIT_Y j = Inr CHR ''X'') \<and>
        Cell W BOARD_EXIT_Y tx = Inr CHR '' '' \<and>
        (\<forall>y' x'. in_range y' x' \<and> \<not> (y' = BOARD_EXIT_Y \<and> (x' = tx \<or> x' = BOARD_SIZE - 1)) \<longrightarrow>
           Cell W y' x' = Cell goal_board y' x'))"
proof -
  have h1: "wf_board goal_board" by code_simp
  have h3: "CheckMove Scan_xminus goal_board 5 2 0
      \<lparr>state_list = [(goal_board, - 1)], states_in_list = {|goal_board|}, stdout = []\<rparr> =
     Some (Inl (Exited 0 goal_exit))"
    by code_simp
  from win_only_by_goal_car_at_exit [OF h1 in_range_exit h3] h1 in_range_exit h3
  show ?thesis by blast
qed

section \<open>The path reconstructor of the specification\<close>

text \<open>
  The specification's path reconstructor, in its words: walk the origin indices back from the
  winning entry to the root, collecting the boards in reverse; put them in forward order;
  pair each board with the next one of the chain; print the pairs, numbered from 1.
\<close>

function spec_walk_back :: "(Board \<times> int) list \<Rightarrow> int \<Rightarrow> Board list" where
  "spec_walk_back frontier i =
     (if 0 \<le> i \<and> nat i < length frontier then
        fst (frontier ! nat i) #
          (if snd (frontier ! nat i) < i then spec_walk_back frontier (snd (frontier ! nat i)) else [])
      else [])"
  by pat_completeness auto
termination
  by (relation "measure (\<lambda>(frontier, i). nat (i + 1))") auto

declare spec_walk_back.simps [simp del]

definition spec_pair_with_next :: "Board list \<Rightarrow> Board option \<Rightarrow> (Board \<times> Board option) list" where
  "spec_pair_with_next chain after = zip chain (map Some (tl chain) @ [after])"

fun spec_emit :: "int \<Rightarrow> (Board \<times> Board option) list \<Rightarrow> globals \<Rightarrow> globals result" where
  "spec_emit n [] g = Inr g"
| "spec_emit n ((b, next) # rest) g =
     bind (Print ''  '' b next (printf (''Solution step '' @ string_of_int n @ ''\<newline>'') g))
       (\<lambda>g. spec_emit (n + 1) rest (printf ''\<newline>'' g))"

definition spec_reconstruct :: "int \<Rightarrow> Board option \<Rightarrow> globals \<Rightarrow> (int \<times> globals) result" where
  "spec_reconstruct i after g =
     (let chain = rev (spec_walk_back (state_list g) i)
      in bind (spec_emit 1 (spec_pair_with_next chain after) g)
           (\<lambda>g'. Inr (int (length chain), g')))"

lemma bind_assoc: "bind (bind m f) k = bind m (\<lambda>v. bind (f v) k)"
  by (cases m) simp_all

lemma spec_emit_append:
  "spec_emit n (xs @ ys) g = bind (spec_emit n xs g) (spec_emit (n + int (length xs)) ys)"
proof (induction xs arbitrary: n g)
  case Nil
  then show ?case by simp
next
  case (Cons p xs)
  obtain b nx where p: "p = (b, nx)" by (cases p)
  have "n + int (length (p # xs)) = n + 1 + int (length xs)" by simp
  then show ?case
    unfolding p append_Cons spec_emit.simps bind_assoc Cons.IH by (simp only:)
qed

lemma spec_pair_with_next_snoc:
  "spec_pair_with_next (bs @ [cur]) after = spec_pair_with_next bs (Some cur) @ [(cur, after)]"
proof (cases bs)
  case Nil
  then show ?thesis by (simp add: spec_pair_with_next_def)
next
  case (Cons b bs')
  have "zip ((b # bs') @ [cur]) ((map Some bs' @ [Some cur]) @ [after]) =
        zip (b # bs') (map Some bs' @ [Some cur]) @ zip [cur] [after]"
    by (rule zip_append) simp
  with Cons show ?thesis by (simp add: spec_pair_with_next_def)
qed

lemma length_spec_pair_with_next [simp]:
  "length (spec_pair_with_next bs after) = length bs"
  by (cases bs) (simp_all add: spec_pair_with_next_def)

lemma PrintSolutionRecursive_refines:
  assumes parents: "\<forall>k < length (state_list g). snd (state_list g ! k) < int k"
    and i: "i < int (length (state_list g))"
  shows "PrintSolutionRecursive i after g = Some (spec_reconstruct i after g)"
  using i
proof (induction "nat (i + 1)" arbitrary: i after rule: less_induct)
  case less
  show ?case
  proof (cases "i < 0")
    case True
    then have "spec_walk_back (state_list g) i = []"
      by (subst spec_walk_back.simps) simp
    with True show ?thesis
      by (subst PrintSolutionRecursive.simps)
         (simp add: spec_reconstruct_def spec_pair_with_next_def)
  next
    case False
    then have ir: "0 \<le> i" "nat i < length (state_list g)" using less.prems by simp_all
    let ?cur = "fst (state_list g ! nat i)" and ?p = "snd (state_list g ! nat i)"
    from parents ir have p: "?p < i" by (metis int_nat_eq)
    then have pl: "?p < int (length (state_list g))" using less.prems by simp
    have m: "nat (?p + 1) < nat (i + 1)" using p ir by simp
    note IH = less.hyps[OF m pl, of "Some ?cur"]
    have chain: "rev (spec_walk_back (state_list g) i) = rev (spec_walk_back (state_list g) ?p) @ [?cur]"
      using ir p by (subst spec_walk_back.simps) simp
    let ?bs = "rev (spec_walk_back (state_list g) ?p)"
    have "PrintSolutionRecursive i after g =
        bind_run (Some (spec_reconstruct ?p (Some ?cur) g))
             (\<lambda>(n, g).
                let step_number = n + 1;
                    g = printf (''Solution step '' @ string_of_int step_number @ ''\<newline>'') g
                in Some (bind (Print ''  '' ?cur after g)
                     (\<lambda>g. Inr (step_number, printf ''\<newline>'' g))))"
      using ir False by (subst PrintSolutionRecursive.simps) (simp add: Let_def IH)
    also have "\<dots> = Some (spec_reconstruct i after g)"
    proof (cases "spec_emit 1 (spec_pair_with_next ?bs (Some ?cur)) g")
      case (Inl h)
      then show ?thesis
        by (simp add: spec_reconstruct_def Let_def chain spec_pair_with_next_snoc spec_emit_append)
    next
      case (Inr g1)
      then show ?thesis
        by (simp add: spec_reconstruct_def Let_def chain spec_pair_with_next_snoc spec_emit_append
            bind_assoc add.commute)
    qed
    finally show ?thesis .
  qed
qed


text \<open>The chain of an entry does not change when entries are added to the list.\<close>

lemma spec_walk_back_prefix:
  assumes parents: "\<forall>k < length sl. snd (sl ! k) < int k"
    and i: "i < int (length sl)"
  shows "spec_walk_back (sl @ new) i = spec_walk_back sl i"
  using i
proof (induction "nat (i + 1)" arbitrary: i rule: less_induct)
  case less
  show ?case
  proof (cases "0 \<le> i")
    case False
    then show ?thesis by (subst (1 2) spec_walk_back.simps) simp
  next
    case True
    then have ir: "nat i < length sl" using less.prems by simp
    let ?p = "snd (sl ! nat i)"
    from parents ir True have p: "?p < i" by (metis int_nat_eq)
    then have pl: "?p < int (length sl)" using less.prems by simp
    have m: "nat (?p + 1) < nat (i + 1)" using p True by simp
    note IH = less.hyps[OF m pl]
    have l: "spec_walk_back (sl @ new) i = fst (sl ! nat i) # spec_walk_back (sl @ new) ?p"
      using True ir p by (subst spec_walk_back.simps) (simp add: nth_append)
    have r: "spec_walk_back sl i = fst (sl ! nat i) # spec_walk_back sl ?p"
      using True ir p by (subst spec_walk_back.simps) simp
    show ?thesis unfolding l r IH ..
  qed
qed

lemma spec_walk_back_last:
  assumes parents: "\<forall>k < length sl. snd (sl ! k) < int k"
    and i: "0 \<le> i" "i < int (length sl)"
  shows "spec_walk_back (sl @ [(W, i)]) (int (length sl)) = W # spec_walk_back sl i"
proof -
  have "spec_walk_back (sl @ [(W, i)]) (int (length sl)) = W # spec_walk_back (sl @ [(W, i)]) i"
    using i by (subst spec_walk_back.simps) simp
  with spec_walk_back_prefix[OF parents i(2), of "[(W, i)]"] show ?thesis by simp
qed

lemma spec_reconstruct_count:
  assumes "spec_reconstruct i after g = Inr (n, w)"
  shows "n = int (length (spec_walk_back (state_list g) i))"
  using assms by (auto simp: spec_reconstruct_def Let_def bind_def split: sum.splits)


text \<open>
  C8: in a list in which every entry's origin is smaller than its own index, as it is when
  entries are added with the index of the entry being explored, \<^verbatim>\<open>PrintSolutionRecursive\<close>
  returns, and it does what the specification's path reconstructor does: the boards from
  the root to entry \<open>i\<close> are printed in that order, each together with the board after it
  (the last one with none), under the headings \<open>Solution step 1\<close>, \<open>Solution step 2\<close>, ...;
  the number returned is the number of boards. \<^verbatim>\<open>PrintSolutionAndQuit\<close> does this for the last
  entry and leaves with status 0.
\<close>

theorem path_reconstructor_refines_spec:
  assumes parents: "\<forall>k < length (state_list g). snd (state_list g ! k) < int k"
    and i: "i < int (length (state_list g))"
  shows "PrintSolutionRecursive i None g = Some (spec_reconstruct i None g) \<and>
     (PrintSolutionAndQuit g :: (Board \<times> globals) run) =
       (case spec_reconstruct (int (length (state_list g)) - 1) None g of
          Inl h \<Rightarrow> Some (Inl h)
        | Inr (n, g') \<Rightarrow> Some (Inl (Exited 0 g')))"
proof -
  have l: "int (length (state_list g)) - 1 < int (length (state_list g))" by simp
  show ?thesis
    using PrintSolutionRecursive_refines[OF parents i, of None]
      PrintSolutionRecursive_refines[OF parents l, of None]
    by (simp add: PrintSolutionAndQuit_def split: sum.splits)
qed

definition two_steps :: globals where
  "two_steps =
     \<lparr>state_list = [([''      '', ''      '', ''   XX '', ''      '', ''      '', ''      ''], - 1),
                     ([''      '', ''      '', ''    XX'', ''      '', ''      '', ''      ''], 0)],
      states_in_list = {|[''      '', ''      '', ''    XX'', ''      '', ''      '', ''      ''],
                         [''      '', ''      '', ''   XX '', ''      '', ''      '', ''      '']|},
      stdout = []\<rparr>"

theorem path_reconstructor_refines_spec_witness:
  "1 < int (length (state_list two_steps)) \<and>
   PrintSolutionRecursive 1 None two_steps = Some (spec_reconstruct 1 None two_steps) \<and>
   spec_reconstruct 1 None two_steps =
     Inr (2, two_steps\<lparr>stdout := ''Solution step 1\<newline>        \<newline>        \<newline>     XX>\<newline>        \<newline>        \<newline>        \<newline>\<newline>Solution step 2\<newline>        \<newline>        \<newline>      XX\<newline>        \<newline>        \<newline>        \<newline>\<newline>''\<rparr>)"
proof -
  have h1: "\<forall>k < length (state_list two_steps). snd (state_list two_steps ! k) < int k"
    by (simp add: two_steps_def less_Suc_eq)
  have h2: "1 < int (length (state_list two_steps))" by (simp add: two_steps_def)
  have v: "spec_reconstruct 1 None two_steps =
     Inr (2, two_steps\<lparr>stdout := ''Solution step 1\<newline>        \<newline>        \<newline>     XX>\<newline>        \<newline>        \<newline>        \<newline>\<newline>Solution step 2\<newline>        \<newline>        \<newline>      XX\<newline>        \<newline>        \<newline>        \<newline>\<newline>''\<rparr>)"
    by code_simp
  from path_reconstructor_refines_spec [OF h1 h2] h2 v show ?thesis by blast
qed

section \<open>What the search keeps true\<close>

text \<open>
  The list and the set hold the same boards, each once; every board is a grid of the right
  size; every origin points to an earlier entry, and a board can be printed from the board
  at its origin.
\<close>

definition search_inv :: "globals \<Rightarrow> bool" where
  "search_inv g =
     (length (state_list g) = fcard (states_in_list g) \<and>
      states_in_list g = fset_of_list (map fst (state_list g)) \<and>
      (\<forall>k < length (state_list g).
         wf_board (fst (state_list g ! k)) \<and>
         snd (state_list g ! k) < int k \<and>
         (0 \<le> snd (state_list g ! k) \<longrightarrow>
            arrow_ok (fst (state_list g ! nat (snd (state_list g ! k)))) (fst (state_list g ! k)))))"

lemma search_inv_printf [simp]: "search_inv (printf text g) = search_inv g"
  by (simp add: search_inv_def printf_def)

lemma search_inv_stdout [simp]: "search_inv (g\<lparr>stdout := out\<rparr>) = search_inv g"
  by (simp add: search_inv_def)

lemma CheckAddState_inv:
  assumes inv: "search_inv g" and wf: "wf_board b"
    and idx: "0 \<le> idx" "nat idx < length (state_list g)"
    and ok: "arrow_ok (fst (state_list g ! nat idx)) b"
  shows "\<exists>g'. CheckAddState b idx g = Inr g' \<and> search_inv g' \<and> stdout g' = stdout g \<and>
            (\<exists>new. state_list g' = state_list g @ new)"
proof (cases "b |\<in>| states_in_list g")
  case True
  with inv show ?thesis by (simp add: CheckAddState_def)
next
  case False
  let ?sl = "state_list g"
  let ?g' = "g\<lparr>states_in_list := finsert b (states_in_list g), state_list := ?sl @ [(b, idx)]\<rparr>"
  from inv have sz: "length ?sl = fcard (states_in_list g)"
    and st: "states_in_list g = fset_of_list (map fst ?sl)"
    and each: "\<forall>k < length ?sl. wf_board (fst (?sl ! k)) \<and> snd (?sl ! k) < int k \<and>
         (0 \<le> snd (?sl ! k) \<longrightarrow> arrow_ok (fst (?sl ! nat (snd (?sl ! k)))) (fst (?sl ! k)))"
    by (simp_all add: search_inv_def)
  have eq: "CheckAddState b idx g = Inr ?g'"
    using False sz by (simp add: CheckAddState_def Let_def fcard_finsert_if)
  have "wf_board (fst ((?sl @ [(b, idx)]) ! k)) \<and> snd ((?sl @ [(b, idx)]) ! k) < int k \<and>
         (0 \<le> snd ((?sl @ [(b, idx)]) ! k) \<longrightarrow>
            arrow_ok (fst ((?sl @ [(b, idx)]) ! nat (snd ((?sl @ [(b, idx)]) ! k))))
              (fst ((?sl @ [(b, idx)]) ! k)))"
    if k: "k < length (?sl @ [(b, idx)])" for k
  proof (cases "k < length ?sl")
    case True
    with each have e: "wf_board (fst (?sl ! k))" "snd (?sl ! k) < int k"
      "0 \<le> snd (?sl ! k) \<longrightarrow> arrow_ok (fst (?sl ! nat (snd (?sl ! k)))) (fst (?sl ! k))"
      by blast+
    from e(2) True have "nat (snd (?sl ! k)) < length ?sl" by simp
    with e True show ?thesis by (simp add: nth_append)
  next
    case False
    with k have "k = length ?sl" by simp
    with wf idx ok show ?thesis by (simp add: nth_append)
  qed
  then have "search_inv ?g'"
    using False sz st by (simp add: search_inv_def fcard_finsert_if)
  with eq show ?thesis by auto
qed

lemma PrintSolutionRecursive_returns:
  assumes inv: "search_inv g" and i: "i < int (length (state_list g))"
    and ok: "\<And>b. after = Some b \<Longrightarrow> 0 \<le> i \<Longrightarrow> arrow_ok (fst (state_list g ! nat i)) b"
  shows "\<exists>n g'. PrintSolutionRecursive i after g = Some (Inr (n, g'))"
  using i ok
proof (induction "nat (i + 1)" arbitrary: i after rule: less_induct)
  case less
  show ?case
  proof (cases "i < 0")
    case True
    then show ?thesis by (subst PrintSolutionRecursive.simps) simp
  next
    case False
    then have ir: "0 \<le> i" "nat i < length (state_list g)" using less.prems by simp_all
    let ?cur = "fst (state_list g ! nat i)" and ?p = "snd (state_list g ! nat i)"
    from inv ir have p: "?p < int (nat i)"
      and par: "0 \<le> ?p \<longrightarrow> arrow_ok (fst (state_list g ! nat ?p)) ?cur"
      unfolding search_inv_def by blast+
    from p ir have p': "?p < i" by simp
    then have pl: "?p < int (length (state_list g))" using less.prems by simp
    have m: "nat (?p + 1) < nat (i + 1)" using p' ir by simp
    from less.hyps[OF m pl, of "Some ?cur"] par
    obtain n g1 where rec: "PrintSolutionRecursive ?p (Some ?cur) g = Some (Inr (n, g1))"
      by auto
    let ?g2 = "printf (''Solution step '' @ string_of_int (n + 1) @ ''\<newline>'') g1"
    from Print_result[of "''  ''" ?cur after ?g2] less.prems(2) ir(1)
    obtain out where "Print ''  '' ?cur after ?g2 = Inr (?g2\<lparr>stdout := out\<rparr>)"
      by auto
    with rec show ?thesis
      using ir False by (subst PrintSolutionRecursive.simps) (simp add: Let_def)
  qed
qed

lemma PrintSolutionAndQuit_exits:
  assumes "search_inv g"
  shows "\<exists>n w. PrintSolutionRecursive (int (length (state_list g)) - 1) None g = Some (Inr (n, w)) \<and>
            (PrintSolutionAndQuit g :: 'a run) = Some (Inl (Exited 0 w))"
proof -
  have "int (length (state_list g)) - 1 < int (length (state_list g))" by simp
  from PrintSolutionRecursive_returns[OF assms this, of None]
  obtain n w where "PrintSolutionRecursive (int (length (state_list g)) - 1) None g = Some (Inr (n, w))"
    by auto
  then show ?thesis by (auto simp: PrintSolutionAndQuit_def)
qed


lemma slide_cells:
  assumes wf: "wf_board s" and ir: "in_range y x" and pr: "probe d s x y" and i: "in_range y' x'"
  shows "cell_at (slide d s x y) y' x' =
     (if y' = snd (far_end d s x y) \<and> x' = fst (far_end d s x y) then CHR '' ''
      else if y' = y \<and> x' = x then cell_at s (y + dy d) (x + dx d) else cell_at s y' x')"
proof -
  let ?car = "cell_at s (y + dy d) (x + dx d)"
  from far_end_spec[OF ir pr] obtain L where L:
    "far_end d s x y = (x + L * dx d, y + L * dy d)"
    "in_range (y + L * dy d) (x + L * dx d)"
    by blast
  have "cell_at (slide d s x y) y' x' =
      cell_at (put (put s y x ?car) (y + L * dy d) (x + L * dx d) CHR '' '') y' x'"
    by (simp add: slide_def L(1))
  also have "\<dots> = (if y' = y + L * dy d \<and> x' = x + L * dx d then CHR '' ''
      else cell_at (put s y x ?car) y' x')"
    using wf_board_put[OF wf] L(2) i by (rule cell_at_put)
  also have "cell_at (put s y x ?car) y' x' = (if y' = y \<and> x' = x then ?car else cell_at s y' x')"
    using wf ir i by (rule cell_at_put)
  finally show ?thesis by (simp add: L(1))
qed

lemma arrow_neighbour:
  assumes "in_range (y + dy d) (x + dx d)"
  shows "\<exists>c. arrow s y x (cell_at s (y + dy d) (x + dx d)) = Inr c"
  using assms by (cases d) (auto simp: arrow_def CellSafe_def in_range_def cell_at_def)

lemma arrow_ok_slide:
  assumes wf: "wf_board s" and ir: "in_range y x" and pr: "probe d s x y"
  shows "arrow_ok s (slide d s x y)"
  unfolding arrow_ok_def
proof (intro allI impI)
  fix y' x'
  assume a: "in_range y' x' \<and> cell_at s y' x' = CHR '' '' \<and> cell_at (slide d s x y) y' x' \<noteq> CHR '' ''"
  from pr have ob: "txty_on_board d (x + dx d * 2) (y + dy d * 2)" by (simp add: probe_def)
  from probe_in_range[OF ir ob] have ir1: "in_range (y + dy d) (x + dx d)" by simp
  from a slide_cells[OF wf ir pr, of y' x'] have "y' = y \<and> x' = x"
    by (auto split: if_splits)
  moreover from this a slide_cells[OF wf ir pr, of y' x']
  have "cell_at (slide d s x y) y' x' = cell_at s (y + dy d) (x + dx d)"
    by (auto split: if_splits)
  ultimately show "\<exists>c. arrow s y' x' (cell_at (slide d s x y) y' x') = Inr c"
    using arrow_neighbour[OF ir1, of s] by simp
qed

lemma arrow_ok_vacate:
  assumes wf: "wf_board s" and pr: "probe Scan_xminus s 5 2"
  shows "arrow_ok s (vacate s)"
  using vacate_spec[OF wf pr] by (auto simp: arrow_ok_def)

text \<open>
  The state of the loops that explore entry \<open>idx\<close> of the list of \<open>g0\<close>: the working board is
  the board of that entry, and the globals have grown from \<open>g0\<close> by new entries only.
\<close>

definition exploring :: "int \<Rightarrow> globals \<Rightarrow> Board \<times> globals \<Rightarrow> bool" where
  "exploring idx g0 a =
     (case a of (s, g) \<Rightarrow>
        search_inv g \<and> 0 \<le> idx \<and> nat idx < length (state_list g0) \<and>
        s = fst (state_list g0 ! nat idx) \<and> stdout g = stdout g0 \<and>
        (\<exists>new. state_list g = state_list g0 @ new))"

lemma exploring_board:
  assumes "exploring idx g0 (s, g)"
  shows "0 \<le> idx \<and> nat idx < length (state_list g) \<and> s = fst (state_list g ! nat idx) \<and>
         wf_board s \<and> search_inv g"
proof -
  from assms obtain new where n: "state_list g = state_list g0 @ new"
    and r: "search_inv g" "0 \<le> idx" "nat idx < length (state_list g0)"
      "s = fst (state_list g0 ! nat idx)"
    by (auto simp: exploring_def)
  from n r(3) have l: "nat idx < length (state_list g)" by simp
  from n r(3,4) have s: "s = fst (state_list g ! nat idx)" by (simp add: nth_append)
  from r(1) l s have "wf_board s" unfolding search_inv_def by blast
  with l s r show ?thesis by simp
qed

lemma exploring_register:
  assumes ex: "exploring idx g0 (s, g)" and wf: "wf_board b" and ok: "arrow_ok s b"
  shows "\<exists>g'. CheckAddState b idx g = Inr g' \<and> exploring idx g0 (s, g')"
proof -
  from exploring_board[OF ex] have e: "0 \<le> idx" "nat idx < length (state_list g)"
    "s = fst (state_list g ! nat idx)" "search_inv g" by blast+
  from ok e(3) have ok': "arrow_ok (fst (state_list g ! nat idx)) b" by simp
  from CheckAddState_inv[OF e(4) wf e(1,2) ok'] obtain g' new where
    g': "CheckAddState b idx g = Inr g'" "search_inv g'" "stdout g' = stdout g"
      "state_list g' = state_list g @ new" by blast
  with ex have "exploring idx g0 (s, g')" by (auto simp: exploring_def)
  with g'(1) show ?thesis by blast
qed

section \<open>A bound on the list\<close>

lemma finite_wf_boards: "finite {b. wf_board b}"
proof -
  have rows: "finite {r :: string. set r \<subseteq> UNIV \<and> length r = nat BOARD_SIZE}"
    by (rule finite_lists_length_eq) simp
  have "finite {b :: Board. set b \<subseteq> {r. set r \<subseteq> UNIV \<and> length r = nat BOARD_SIZE} \<and>
      length b = nat BOARD_SIZE}"
    by (rule finite_lists_length_eq[OF rows])
  moreover have "{b. wf_board b} \<subseteq>
    {b :: Board. set b \<subseteq> {r. set r \<subseteq> UNIV \<and> length r = nat BOARD_SIZE} \<and> length b = nat BOARD_SIZE}"
    by (auto simp: wf_board_def list_all_iff)
  ultimately show ?thesis by (rule rev_finite_subset)
qed

lemma search_inv_bound:
  assumes "search_inv g"
  shows "length (state_list g) \<le> card {b. wf_board b}"
proof -
  from assms have l: "length (state_list g) = fcard (fset_of_list (map fst (state_list g)))"
    and wf: "\<forall>k < length (state_list g). wf_board (fst (state_list g ! k))"
    by (simp_all add: search_inv_def)
  have "set (map fst (state_list g)) \<subseteq> {b. wf_board b}"
    using wf by (force simp: in_set_conv_nth)
  then have "card (set (map fst (state_list g))) \<le> card {b. wf_board b}"
    by (rule card_mono[OF finite_wf_boards])
  with l show ?thesis by (simp add: fcard.rep_eq fset_of_list.rep_eq)
qed

section \<open>What exploring an entry leaves behind\<close>

text \<open>
  The three ways a call of \<^verbatim>\<open>CheckMove\<close> at an empty cell can go: no car to move, a board
  handed to \<^verbatim>\<open>CheckAddState\<close> (\<open>target\<close>), or car \<open>X\<close> moving into the last cell of the exit
  row (\<open>wins\<close>).
\<close>

definition wins :: "dir \<Rightarrow> Board \<Rightarrow> int \<Rightarrow> int \<Rightarrow> bool" where
  "wins d s x y =
     (probe d s x y \<and> dx d = - 1 \<and> x = BOARD_SIZE - 1 \<and> y = BOARD_EXIT_Y \<and>
      cell_at s (y + dy d) (x + dx d) = CHR ''X'')"

definition target :: "dir \<Rightarrow> Board \<Rightarrow> int \<Rightarrow> int \<Rightarrow> Board" where
  "target d s x y =
     (if dx d = - 1 \<and> x = BOARD_SIZE - 1 \<and> y = BOARD_EXIT_Y then vacate s else slide d s x y)"

text \<open>A call that neither wins nor has a board to add that is not in the set already.\<close>

definition idle :: "dir \<Rightarrow> Board \<Rightarrow> int \<Rightarrow> int \<Rightarrow> globals \<Rightarrow> bool" where
  "idle d s x y g =
     (\<not> probe d s x y \<or> (\<not> wins d s x y \<and> target d s x y |\<in>| states_in_list g))"

lemma wins_exit:
  assumes "wins d s x y"
  shows "d = Scan_xminus \<and> x = 5 \<and> y = 2 \<and> probe Scan_xminus s 5 2 \<and> cell_at s 2 4 = CHR ''X''"
proof -
  have n: "BOARD_SIZE - 1 = 5" "BOARD_EXIT_Y = 2"
    by (simp_all add: BOARD_SIZE_def BOARD_EXIT_Y_def)
  from assms have a: "probe d s x y" "dx d = - 1" "x = 5" "y = 2"
    "cell_at s (y + dy d) (x + dx d) = CHR ''X''"
    unfolding wins_def n by blast+
  from a(2) have d: "d = Scan_xminus" by (cases d) auto
  with a show ?thesis by simp
qed

lemma CheckMove_target:
  assumes wf: "wf_board s" and ir: "in_range y x" and e: "cell_at s y x = CHR '' ''"
    and pr: "probe d s x y" and nw: "\<not> wins d s x y"
  shows "CheckMove d s x y idx_state g =
       bind_run (Some (CheckAddState (target d s x y) idx_state g)) (\<lambda>g'. Some (Inr (s, g'))) \<and>
     wf_board (target d s x y) \<and> arrow_ok s (target d s x y)"
proof (cases "dx d = - 1 \<and> x = BOARD_SIZE - 1 \<and> y = BOARD_EXIT_Y")
  case False
  have t: "target d s x y = slide d s x y"
    unfolding target_def if_not_P[OF False] ..
  from CheckMove_ordinary[OF wf ir e pr False, of idx_state g]
    wf_board_slide[OF wf, of d x y] arrow_ok_slide[OF wf ir pr]
  show ?thesis unfolding t by simp
next
  case True
  have t: "target d s x y = vacate s"
    unfolding target_def if_P[OF True] ..
  from True have d: "d = Scan_xminus" and x: "x = 5" and y: "y = 2"
    by (cases d; simp add: BOARD_SIZE_def BOARD_EXIT_Y_def)+
  from pr have pr': "probe Scan_xminus s 5 2" by (simp add: d x y)
  from e have e': "cell_at s 2 5 = CHR '' ''" by (simp add: x y)
  from nw pr True have other: "cell_at s 2 4 \<noteq> CHR ''X''"
    by (simp add: wins_def d x y)
  from CheckMove_exit_other[OF wf e' pr' other, of idx_state g]
    vacate_spec[OF wf pr'] arrow_ok_vacate[OF wf pr']
  show ?thesis unfolding t by (simp add: d x y)
qed

lemma CheckMove_wins:
  assumes ir: "in_range y x" and w: "wins d s x y"
  shows "CheckMove d s x y idx_state g =
     bind_run (Some (CheckAddState (slide d s x y) idx_state g)) PrintSolutionAndQuit"
proof -
  from w have pr: "probe d s x y"
    and ex: "dx d = - 1 \<and> x = BOARD_SIZE - 1 \<and> y = BOARD_EXIT_Y"
    and goal: "cell_at s (y + dy d) (x + dx d) = CHR ''X''"
    unfolding wins_def by blast+
  show ?thesis by (rule CheckMove_exit_goal[OF ir pr ex goal])
qed

lemma idle_mono:
  assumes "idle d s x y g" and "states_in_list g |\<subseteq>| states_in_list g'"
  shows "idle d s x y g'"
  using assms by (auto simp: idle_def)

lemma idle_CheckMove:
  assumes wf: "wf_board s" and ir: "in_range y x" and e: "cell_at s y x = CHR '' ''"
    and i: "idle d s x y g"
  shows "CheckMove d s x y idx_state g = Some (Inr (s, g))"
proof (cases "probe d s x y")
  case False
  then show ?thesis by (rule CheckMove_no_car[OF ir])
next
  case True
  with i have nw: "\<not> wins d s x y" and m: "target d s x y |\<in>| states_in_list g"
    by (simp_all add: idle_def)
  from CheckMove_target[OF wf ir e True nw, of idx_state g] m show ?thesis
    by (simp add: CheckAddState_def)
qed

text \<open>
  How the process ends when entry \<open>idx\<close> is explored and \<open>X\<close> can leave: the call of
  \<^verbatim>\<open>CheckMove\<close> at the last cell of the exit row, on the board \<open>s\<close> of the entry, stops it.
\<close>

definition won :: "int \<Rightarrow> globals \<Rightarrow> globals \<Rightarrow> bool" where
  "won idx g0 w =
     (\<exists>s g2. exploring idx g0 (s, g2) \<and> cell_at s 2 5 = CHR '' '' \<and> wins Scan_xminus s 5 2 \<and>
        CheckMove Scan_xminus s 5 2 idx g2 = Some (Inl (Exited 0 w)) \<and>
        (\<exists>new. state_list w = state_list g2 @ new))"

definition ends :: "('a \<Rightarrow> bool) \<Rightarrow> (globals \<Rightarrow> bool) \<Rightarrow> 'a run \<Rightarrow> bool" where
  "ends P E r = ((\<exists>a. r = Some (Inr a) \<and> P a) \<or> (\<exists>w. r = Some (Inl (Exited 0 w)) \<and> E w))"

lemma ends_bind:
  assumes "ends P E m" and "\<And>a. P a \<Longrightarrow> ends Q E (f a)"
  shows "ends Q E (bind_run m f)"
proof -
  from assms(1) consider a where "m = Some (Inr a)" "P a"
    | w where "m = Some (Inl (Exited 0 w))" "E w"
    unfolding ends_def by blast
  then show ?thesis
  proof cases
    case 1
    with assms(2)[of a] show ?thesis by simp
  next
    case 2
    then show ?thesis by (simp add: ends_def)
  qed
qed

lemma ends_weaken:
  assumes "ends P E r" and "\<And>a. P a \<Longrightarrow> P' a"
  shows "ends P' E r"
  using assms unfolding ends_def by blast

lemma ends_exit_weaken:
  assumes "ends P E r" and "\<And>w. E w \<Longrightarrow> E' w"
  shows "ends P E' r"
  using assms unfolding ends_def by blast

lemma for_loop_ends:
  assumes body: "\<And>j a. lo \<le> j \<Longrightarrow> j < n \<Longrightarrow> I j a \<Longrightarrow> ends (I (j + 1)) E (body j a)"
    and a: "I i a" and i: "lo \<le> i" "i \<le> n"
  shows "ends (I n) E (for_loop i n body a)"
  using a i
proof (induction "nat (n - i)" arbitrary: i a)
  case 0
  then have "i = n" by simp
  with "0.prems"(1) show ?case by (subst for_loop.simps) (simp add: ends_def)
next
  case (Suc k)
  then have lt: "i < n" by simp
  have k: "k = nat (n - (i + 1))" using Suc.hyps(2) by simp
  have "ends (I n) E (bind_run (body i a) (\<lambda>a. for_loop (i + 1) n body a))"
  proof (rule ends_bind[OF body[OF Suc.prems(2) lt Suc.prems(1)]])
    fix a' assume "I (i + 1) a'"
    from Suc.hyps(1)[OF k this] Suc.prems(2) lt show "ends (I n) E (for_loop (i + 1) n body a')"
      by simp
  qed
  with lt show ?case by (subst for_loop.simps) simp
qed

lemma CheckMove_exit_list:
  assumes ir: "in_range y x" and w: "wins d s x y"
    and ex: "CheckMove d s x y idx_state g = Some (Inl (Exited n v))"
  shows "\<exists>new. state_list v = state_list g @ new"
proof -
  from ex CheckMove_wins[OF ir w, of idx_state g]
  obtain g1 where g1: "CheckAddState (slide d s x y) idx_state g = Inr g1"
    "(PrintSolutionAndQuit g1 :: (Board \<times> globals) run) = Some (Inl (Exited n v))"
    by (cases "CheckAddState (slide d s x y) idx_state g") (auto dest: CheckAddState_halt)
  from PrintSolutionAndQuit_result[OF g1(2)] have "state_list v = state_list g1" by auto
  with CheckAddState_result[OF g1(1)] show ?thesis by auto
qed

text \<open>One call of \<^verbatim>\<open>CheckMove\<close> while entry \<open>idx\<close> is explored.\<close>

lemma CheckMove_ends:
  assumes ex: "exploring idx g0 (s, g)" and ir: "in_range y x" and e: "cell_at s y x = CHR '' ''"
  shows "ends (\<lambda>a. exploring idx g0 a \<and> fst a = s \<and>
                 states_in_list g |\<subseteq>| states_in_list (snd a) \<and> idle d s x y (snd a))
           (won idx g0) (CheckMove d s x y idx g)"
proof (cases "probe d s x y")
  case False
  from CheckMove_no_car[OF ir False, of idx g] ex False show ?thesis
    by (simp add: ends_def idle_def)
next
  case pr: True
  from exploring_board[OF ex] have wf: "wf_board s" by blast
  show ?thesis
  proof (cases "wins d s x y")
    case False
    from CheckMove_target[OF wf ir e pr False, of idx g]
    have cm: "CheckMove d s x y idx g =
        bind_run (Some (CheckAddState (target d s x y) idx g)) (\<lambda>g'. Some (Inr (s, g')))"
      and wft: "wf_board (target d s x y)" and ok: "arrow_ok s (target d s x y)"
      by blast+
    from exploring_register[OF ex wft ok]
    obtain g' where g': "CheckAddState (target d s x y) idx g = Inr g'" "exploring idx g0 (s, g')"
      by blast
    from CheckAddState_result[OF g'(1)]
    have "states_in_list g' = finsert (target d s x y) (states_in_list g)" by simp
    then have "states_in_list g |\<subseteq>| states_in_list g'" "target d s x y |\<in>| states_in_list g'"
      by auto
    with cm g' False show ?thesis by (simp add: ends_def idle_def)
  next
    case True
    from wins_exit[OF True] have d: "d = Scan_xminus" and x: "x = 5" and y: "y = 2" by blast+
    from exploring_register[OF ex wf_board_slide[OF wf] arrow_ok_slide[OF wf ir pr]]
    obtain g' where g': "CheckAddState (slide d s x y) idx g = Inr g'" "exploring idx g0 (s, g')"
      by blast
    from exploring_board[OF g'(2)] have "search_inv g'" by blast
    from PrintSolutionAndQuit_exits[OF this]
    obtain w where w: "(PrintSolutionAndQuit g' :: (Board \<times> globals) run) = Some (Inl (Exited 0 w))"
      by blast
    with CheckMove_wins[OF ir True, of idx g] g'(1)
    have cm: "CheckMove d s x y idx g = Some (Inl (Exited 0 w))" by simp
    from CheckMove_exit_list[OF ir True cm] obtain new where "state_list w = state_list g @ new" ..
    with ex e True cm have "won idx g0 w"
      unfolding won_def d x y by blast
    with cm show ?thesis by (simp add: ends_def)
  qed
qed

text \<open>
  While entry \<open>idx\<close> is scanned: every empty cell before \<open>(y, x)\<close> in the order of the two
  loops has been dealt with, so that the four calls there would now find nothing.
\<close>

definition scanned :: "int \<Rightarrow> globals \<Rightarrow> int \<Rightarrow> int \<Rightarrow> Board \<times> globals \<Rightarrow> bool" where
  "scanned idx g0 y x a =
     (exploring idx g0 a \<and>
      (\<forall>y' x' d. in_range y' x' \<and> (y' < y \<or> (y' = y \<and> x' < x)) \<and>
          cell_at (fst a) y' x' = CHR '' '' \<longrightarrow> idle d (fst a) x' y' (snd a)))"

lemma check_cell_ends:
  assumes sc: "scanned idx g0 y x a" and ir: "in_range y x"
  shows "ends (scanned idx g0 y (x + 1)) (won idx g0) (check_cell idx y x a)"
proof -
  obtain s g where a: "a = (s, g)" by (cases a)
  from sc have ex: "exploring idx g0 (s, g)"
    and before: "\<And>y' x' d. in_range y' x' \<Longrightarrow> y' < y \<or> (y' = y \<and> x' < x) \<Longrightarrow>
        cell_at s y' x' = CHR '' '' \<Longrightarrow> idle d s x' y' g"
    by (auto simp: scanned_def a)
  show ?thesis
  proof (cases "cell_at s y x = CHR '' ''")
    case False
    have "scanned idx g0 y (x + 1) (s, g)"
      unfolding scanned_def
    proof (intro conjI allI impI)
      show "exploring idx g0 (s, g)" by (rule ex)
    next
      fix y' x' d
      assume h: "in_range y' x' \<and> (y' < y \<or> y' = y \<and> x' < x + 1) \<and>
          cell_at (fst (s, g)) y' x' = CHR '' ''"
      with False have "y' < y \<or> (y' = y \<and> x' < x)" by (cases "x' = x") auto
      with h before show "idle d (fst (s, g)) x' y' (snd (s, g))" by simp
    qed
    with False ir show ?thesis
      by (simp add: check_cell_def a Cell_in_range ends_def)
  next
    case True
    define after where "after D a' \<longleftrightarrow> exploring idx g0 a' \<and> fst a' = s \<and>
        states_in_list g |\<subseteq>| states_in_list (snd a') \<and> (\<forall>d\<in>D. idle d s x y (snd a'))"
      for D and a' :: "Board \<times> globals"
    have step: "ends (after (insert d D)) (won idx g0) (CheckMove d (fst a1) x y idx (snd a1))"
      if a1: "after D a1" for d D a1
    proof -
      obtain s1 g1 where p: "a1 = (s1, g1)" by (cases a1)
      from a1 have s1: "s1 = s" and ex1: "exploring idx g0 (s, g1)"
        and sub: "states_in_list g |\<subseteq>| states_in_list g1"
        and dD: "\<forall>d\<in>D. idle d s x y g1"
        by (auto simp: after_def p)
      have "ends (\<lambda>a. exploring idx g0 a \<and> fst a = s \<and>
                 states_in_list g1 |\<subseteq>| states_in_list (snd a) \<and> idle d s x y (snd a))
           (won idx g0) (CheckMove d s x y idx g1)"
        by (rule CheckMove_ends[OF ex1 ir True])
      then consider a2 where "CheckMove d s x y idx g1 = Some (Inr a2)" "exploring idx g0 a2"
          "fst a2 = s" "states_in_list g1 |\<subseteq>| states_in_list (snd a2)" "idle d s x y (snd a2)"
        | w where "CheckMove d s x y idx g1 = Some (Inl (Exited 0 w))" "won idx g0 w"
        unfolding ends_def by blast
      then show ?thesis
      proof cases
        case 1
        have "idle d' s x y (snd a2)" if "d' \<in> insert d D" for d'
        proof (cases "d' = d")
          case True
          with 1(5) show ?thesis by simp
        next
          case False
          with that dD have "idle d' s x y g1" by simp
          then show ?thesis using 1(4) by (rule idle_mono)
        qed
        with 1 sub have "after (insert d D) a2" by (auto simp: after_def)
        with 1(1) show ?thesis by (simp add: ends_def p s1)
      next
        case 2
        then show ?thesis by (simp add: ends_def p s1)
      qed
    qed
    have fin: "scanned idx g0 y (x + 1) a4"
      if a4: "after {Scan_yminus, Scan_yplus, Scan_xminus, Scan_xplus} a4" for a4
      unfolding scanned_def
    proof (intro conjI allI impI)
      show "exploring idx g0 a4" using a4 by (simp add: after_def)
    next
      fix y' x' d
      assume h: "in_range y' x' \<and> (y' < y \<or> y' = y \<and> x' < x + 1) \<and>
          cell_at (fst a4) y' x' = CHR '' ''"
      from a4 have s4: "fst a4 = s" and sub: "states_in_list g |\<subseteq>| states_in_list (snd a4)"
        by (simp_all add: after_def)
      have all: "idle d s x y (snd a4)" for d
        using a4 by (cases d) (simp_all add: after_def)
      show "idle d (fst a4) x' y' (snd a4)"
      proof (cases "y' = y \<and> x' = x")
        case True
        with all s4 show ?thesis by simp
      next
        case False
        with h have "y' < y \<or> (y' = y \<and> x' < x)" by auto
        with h s4 before have "idle d s x' y' g" by simp
        then show ?thesis unfolding s4 using sub by (rule idle_mono)
      qed
    qed
    have a0: "after {} (s, g)" using ex by (simp add: after_def)
    have l4: "ends (scanned idx g0 y (x + 1)) (won idx g0)
        (case a3 of (s, g) \<Rightarrow> CheckMove Scan_yminus s x y idx g)"
      if "after {Scan_yplus, Scan_xminus, Scan_xplus} a3" for a3
    proof -
      from step[OF that, of Scan_yminus]
      have "ends (after {Scan_yminus, Scan_yplus, Scan_xminus, Scan_xplus}) (won idx g0)
          (CheckMove Scan_yminus (fst a3) x y idx (snd a3))" .
      then have "ends (scanned idx g0 y (x + 1)) (won idx g0)
          (CheckMove Scan_yminus (fst a3) x y idx (snd a3))"
        using fin by (auto simp: ends_def)
      then show ?thesis by (simp add: split_def)
    qed
    have l3: "ends (scanned idx g0 y (x + 1)) (won idx g0) (case a2 of (s, g) \<Rightarrow>
           bind_run (CheckMove Scan_yplus s x y idx g) (\<lambda>(s, g).
             CheckMove Scan_yminus s x y idx g))"
      if "after {Scan_xminus, Scan_xplus} a2" for a2
    proof -
      from ends_bind[OF step[OF that, of Scan_yplus] l4] show ?thesis by (simp add: split_def)
    qed
    have l2: "ends (scanned idx g0 y (x + 1)) (won idx g0) (case a1 of (s, g) \<Rightarrow>
         bind_run (CheckMove Scan_xminus s x y idx g) (\<lambda>(s, g).
         bind_run (CheckMove Scan_yplus s x y idx g) (\<lambda>(s, g).
           CheckMove Scan_yminus s x y idx g)))"
      if "after {Scan_xplus} a1" for a1
    proof -
      from ends_bind[OF step[OF that, of Scan_xminus] l3] show ?thesis by (simp add: split_def)
    qed
    from ends_bind[OF step[OF a0, of Scan_xplus] l2]
    have "ends (scanned idx g0 y (x + 1)) (won idx g0)
      (bind_run (CheckMove Scan_xplus s x y idx g) (\<lambda>(s, g).
       bind_run (CheckMove Scan_xminus s x y idx g) (\<lambda>(s, g).
       bind_run (CheckMove Scan_yplus s x y idx g) (\<lambda>(s, g).
         CheckMove Scan_yminus s x y idx g))))" by simp
    with True ir show ?thesis
      by (simp add: check_cell_def a Cell_in_range)
  qed
qed

text \<open>All cells of the board of an entry have been dealt with.\<close>

definition settled :: "Board \<Rightarrow> globals \<Rightarrow> bool" where
  "settled b g =
     (\<forall>y x d. in_range y x \<and> cell_at b y x = CHR '' '' \<longrightarrow> idle d b x y g)"

lemma settled_mono:
  assumes "settled b g" and "states_in_list g |\<subseteq>| states_in_list g'"
  shows "settled b g'"
  using assms idle_mono unfolding settled_def by blast

lemma ends_result:
  assumes "ends P E r" and "r = Some (Inr a)"
  shows "P a"
  using assms by (auto simp: ends_def)

lemma scanned_start:
  assumes "exploring idx g0 a"
  shows "scanned idx g0 0 0 a"
  using assms by (auto simp: scanned_def in_range_def)

lemma scanned_exploring:
  assumes "scanned idx g0 y x a"
  shows "exploring idx g0 a"
  using assms by (simp add: scanned_def)

lemma scanned_next_row:
  assumes h: "scanned idx g0 y BOARD_SIZE a"
  shows "scanned idx g0 (y + 1) 0 a"
  unfolding scanned_def
proof (intro conjI allI impI)
  show "exploring idx g0 a" using h by (simp add: scanned_def)
next
  fix y' x' d
  assume c: "in_range y' x' \<and> (y' < y + 1 \<or> y' = y + 1 \<and> x' < 0) \<and>
      cell_at (fst a) y' x' = CHR '' ''"
  then have "in_range y' x' \<and> (y' < y \<or> (y' = y \<and> x' < BOARD_SIZE)) \<and>
      cell_at (fst a) y' x' = CHR '' ''"
    by (auto simp: in_range_def)
  with h show "idle d (fst a) x' y' (snd a)" unfolding scanned_def by blast
qed

text \<open>The loop over the cells of row \<open>y\<close>, from \<open>x0\<close> up to \<open>n\<close>.\<close>

lemma row_ends:
  assumes y: "0 \<le> y" "y < BOARD_SIZE" and a: "scanned idx g0 y x0 a"
    and x0: "0 \<le> x0" "x0 \<le> n" and n: "n \<le> BOARD_SIZE"
  shows "ends (scanned idx g0 y n) (won idx g0) (for_loop x0 n (check_cell idx y) a)"
proof (rule for_loop_ends[where lo = 0 and I = "scanned idx g0 y", OF _ a x0])
  fix x a' assume x: "0 \<le> x" "x < n" and a': "scanned idx g0 y x a'"
  from x y n have "in_range y x" by (simp add: in_range_def)
  from check_cell_ends[OF a' this]
  show "ends (scanned idx g0 y (x + 1)) (won idx g0) (check_cell idx y x a')" .
qed

text \<open>The loop over the rows, from \<open>y0\<close> up to \<open>m\<close>.\<close>

lemma rows_ends:
  assumes a: "scanned idx g0 y0 0 a" and y0: "0 \<le> y0" "y0 \<le> m" and m: "m \<le> BOARD_SIZE"
  shows "ends (scanned idx g0 m 0) (won idx g0)
     (for_loop y0 m (\<lambda>y. for_loop 0 BOARD_SIZE (check_cell idx y)) a)"
proof (rule for_loop_ends[where lo = 0 and I = "\<lambda>y. scanned idx g0 y 0", OF _ a y0])
  fix y a' assume y: "0 \<le> y" "y < m" and a': "scanned idx g0 y 0 a'"
  from y m have y6: "y < BOARD_SIZE" by simp
  have "ends (scanned idx g0 y BOARD_SIZE) (won idx g0)
      (for_loop 0 BOARD_SIZE (check_cell idx y) a')"
    by (rule row_ends[OF y(1) y6 a']) (simp_all add: BOARD_SIZE_def)
  then show "ends (scanned idx g0 (y + 1) 0) (won idx g0)
      (for_loop 0 BOARD_SIZE (check_cell idx y) a')"
    using scanned_next_row by (rule ends_weaken)
qed

lemma explore_ends:
  assumes ex: "exploring idx g0 a"
  shows "ends (\<lambda>a'. exploring idx g0 a' \<and> settled (fst a') (snd a')) (won idx g0) (explore idx a)"
proof -
  have "ends (scanned idx g0 BOARD_SIZE 0) (won idx g0)
      (for_loop 0 BOARD_SIZE (\<lambda>y. for_loop 0 BOARD_SIZE (check_cell idx y)) a)"
    by (rule rows_ends[OF scanned_start[OF ex]]) (simp_all add: BOARD_SIZE_def)
  moreover have "exploring idx g0 a' \<and> settled (fst a') (snd a')"
    if h: "scanned idx g0 BOARD_SIZE 0 a'" for a'
  proof
    show "exploring idx g0 a'" using h by (simp add: scanned_def)
    show "settled (fst a') (snd a')"
      unfolding settled_def
    proof (intro allI impI)
      fix y x d assume c: "in_range y x \<and> cell_at (fst a') y x = CHR '' ''"
      then have "in_range y x \<and> (y < BOARD_SIZE \<or> (y = BOARD_SIZE \<and> x < 0)) \<and>
          cell_at (fst a') y x = CHR '' ''"
        by (auto simp: in_range_def)
      with h show "idle d (fst a') x y (snd a')" unfolding scanned_def by blast
    qed
  qed
  ultimately show ?thesis unfolding explore_def by (rule ends_weaken)
qed

text \<open>
  The list while the loop of \<^verbatim>\<open>main\<close> is at \<open>idx\<close>: it starts with the initial board, and
  every entry before \<open>idx\<close> has been explored without a win, all its successors being in the
  list.
\<close>

definition frontier :: "Board \<Rightarrow> int \<Rightarrow> globals \<Rightarrow> bool" where
  "frontier init idx g =
     (search_inv g \<and> state_list g \<noteq> [] \<and> fst (state_list g ! 0) = init \<and>
      (\<forall>k. k < length (state_list g) \<and> int k < idx \<longrightarrow> settled (fst (state_list g ! k)) g))"

definition found :: "Board \<Rightarrow> globals \<Rightarrow> bool" where
  "found init w =
     (\<exists>idx g0. won idx g0 w \<and> state_list g0 \<noteq> [] \<and> fst (state_list g0 ! 0) = init)"

lemma search_inv_subset:
  assumes "search_inv g" "search_inv g'" "state_list g' = state_list g @ new"
  shows "states_in_list g |\<subseteq>| states_in_list g'"
  using assms by (auto simp: search_inv_def fset_of_list_elem)

lemma search_ends:
  assumes "frontier init idx g" "0 \<le> idx"
  shows "ends (\<lambda>g'. frontier init (int (length (state_list g'))) g') (found init) (search idx g)"
  using assms
proof (induction "card {b. wf_board b} - nat idx" arbitrary: idx g rule: less_induct)
  case less
  from less.prems(1) have inv: "search_inv g" and ne: "state_list g \<noteq> []"
    and root: "fst (state_list g ! 0) = init"
    and old: "\<And>k. k < length (state_list g) \<Longrightarrow> int k < idx \<Longrightarrow> settled (fst (state_list g ! k)) g"
    by (simp_all add: frontier_def)
  show ?case
  proof (cases "idx < int (length (state_list g))")
    case False
    have "frontier init (int (length (state_list g))) g"
      unfolding frontier_def using inv ne root old False by auto
    with False show ?thesis by (subst search.simps) (simp add: ends_def)
  next
    case True
    let ?g1 = "if DEBUG_PROGRESS_OUTPUT then g
                 else if idx mod 100 = 0
                   then printf (''...explored '' @ string_of_int idx @ '' board states\<newline>'') g
                   else g"
    let ?s = "fst (state_list g ! nat idx)"
    have sl: "state_list ?g1 = state_list g" by (simp add: printf_def)
    have st: "states_in_list ?g1 = states_in_list g" by (simp add: printf_def)
    have inv1: "search_inv ?g1" using inv by simp
    have ex: "exploring idx ?g1 (?s, ?g1)"
      unfolding exploring_def prod.case sl using inv1 True less.prems(2) by simp
    have bound: "nat idx < card {b. wf_board b}"
      using True less.prems(2) search_inv_bound[OF inv] by simp
    have "ends (\<lambda>g'. frontier init (int (length (state_list g'))) g') (found init)
        (bind_run (explore idx (?s, ?g1)) (\<lambda>(s, g). search (idx + 1) g))"
    proof (rule ends_bind[where E = "found init" and
          P = "\<lambda>a'. exploring idx ?g1 a' \<and> settled (fst a') (snd a')"])
      from explore_ends[OF ex]
      have "ends (\<lambda>a'. exploring idx ?g1 a' \<and> settled (fst a') (snd a')) (won idx ?g1)
          (explore idx (?s, ?g1))" .
      moreover have "found init w" if "won idx ?g1 w" for w
        unfolding found_def using that ne root sl by (intro exI[of _ idx] exI[of _ ?g1]) simp
      ultimately show "ends (\<lambda>a'. exploring idx ?g1 a' \<and> settled (fst a') (snd a')) (found init)
          (explore idx (?s, ?g1))"
        by (rule ends_exit_weaken)
    next
      fix a assume a: "exploring idx ?g1 a \<and> settled (fst a) (snd a)"
      obtain s' g' where p: "a = (s', g')" by (cases a)
      from a obtain new where inv': "search_inv g'" and s': "s' = ?s"
        and new: "state_list g' = state_list g @ new" and set': "settled s' g'"
        by (auto simp: exploring_def p sl)
      from search_inv_subset[OF inv inv' new]
      have sub: "states_in_list g |\<subseteq>| states_in_list g'" .
      have fr: "frontier init (idx + 1) g'"
        unfolding frontier_def
      proof (intro conjI allI impI)
        show "search_inv g'" by (rule inv')
        show "state_list g' \<noteq> []" using ne new by simp
        show "fst (state_list g' ! 0) = init" using ne root new by (simp add: nth_append)
      next
        fix k assume k: "k < length (state_list g') \<and> int k < idx + 1"
        with True less.prems(2) have kl: "k < length (state_list g)" by simp
        then have same: "fst (state_list g' ! k) = fst (state_list g ! k)"
          by (simp add: new nth_append)
        show "settled (fst (state_list g' ! k)) g'"
        proof (cases "int k < idx")
          case True
          from settled_mono[OF old[OF kl True] sub] show ?thesis by (simp add: same)
        next
          case False
          with k have "k = nat idx" by auto
          with set' s' same show ?thesis by simp
        qed
      qed
      have m: "card {b. wf_board b} - nat (idx + 1) < card {b. wf_board b} - nat idx"
        using bound less.prems(2) by simp
      from less.hyps[OF m fr] less.prems(2)
      show "ends (\<lambda>g'. frontier init (int (length (state_list g'))) g') (found init)
          (case a of (s, g) \<Rightarrow> search (idx + 1) g)"
        by (simp add: p)
    qed
    with True show ?thesis by (subst search.simps) (simp add: Let_def)
  qed
qed

lemma for_loop_fix:
  assumes "\<And>j. i \<le> j \<Longrightarrow> j < n \<Longrightarrow> body j a = Some (Inr a)"
  shows "for_loop i n body a = Some (Inr a)"
  using assms
proof (induction "nat (n - i)" arbitrary: i)
  case 0
  then show ?case by (subst for_loop.simps) simp
next
  case (Suc k)
  then have lt: "i < n" by simp
  have k: "k = nat (n - (i + 1))" using Suc.hyps(2) by simp
  have "for_loop (i + 1) n body a = Some (Inr a)"
    by (rule Suc.hyps(1)[OF k]) (simp add: Suc.prems)
  with lt Suc.prems[of i] show ?case by (subst for_loop.simps) simp
qed

lemma settled_explore:
  assumes wf: "wf_board b" and st: "settled b g"
  shows "explore idx (b, g) = Some (Inr (b, g))"
  unfolding explore_def
proof (rule for_loop_fix)
  fix y assume y: "0 \<le> y" "y < BOARD_SIZE"
  show "for_loop 0 BOARD_SIZE (check_cell idx y) (b, g) = Some (Inr (b, g))"
  proof (rule for_loop_fix)
    fix x assume x: "0 \<le> x" "x < BOARD_SIZE"
    from x y have ir: "in_range y x" by (simp add: in_range_def)
    show "check_cell idx y x (b, g) = Some (Inr (b, g))"
    proof (cases "cell_at b y x = CHR '' ''")
      case False
      with ir show ?thesis by (simp add: check_cell_def Cell_in_range)
    next
      case True
      with st ir have "idle d b x y g" for d by (simp add: settled_def)
      from idle_CheckMove[OF wf ir True this, of _ idx] True ir show ?thesis
        by (simp add: check_cell_def Cell_in_range)
    qed
  qed
qed

lemma settled_no_win:
  assumes st: "settled b g"
  shows "\<not> (Cell b BOARD_EXIT_Y (BOARD_SIZE - 1) = Inr CHR '' '' \<and>
            Cell b BOARD_EXIT_Y (BOARD_SIZE - 2) = Inr CHR ''X'' \<and>
            Cell b BOARD_EXIT_Y (BOARD_SIZE - 3) = Inr CHR ''X'')"
proof
  assume h: "Cell b BOARD_EXIT_Y (BOARD_SIZE - 1) = Inr CHR '' '' \<and>
            Cell b BOARD_EXIT_Y (BOARD_SIZE - 2) = Inr CHR ''X'' \<and>
            Cell b BOARD_EXIT_Y (BOARD_SIZE - 3) = Inr CHR ''X''"
  have ir: "in_range 2 5" "in_range 2 4" "in_range 2 3" by (simp_all add: in_range_def BOARD_SIZE_def)
  from h have c: "cell_at b 2 5 = CHR '' ''" "cell_at b 2 4 = CHR ''X''" "cell_at b 2 3 = CHR ''X''"
    using ir by (simp_all add: BOARD_SIZE_def BOARD_EXIT_Y_def Cell_in_range)
  then have pr: "probe Scan_xminus b 5 2"
    by (simp add: probe_def txty_on_board_def)
  with c have "wins Scan_xminus b 5 2"
    by (simp add: wins_def BOARD_SIZE_def BOARD_EXIT_Y_def)
  moreover from st ir(1) c(1) have "idle Scan_xminus b 5 2 g" by (simp add: settled_def)
  ultimately show False using pr by (simp add: idle_def)
qed

lemma main_ends:
  assumes wf: "wf_board initial_board"
  shows "(\<exists>w. main initial_board = Some (Inl (Exited 0 w)) \<and> found initial_board w) \<or>
         (\<exists>g. main initial_board = Some (Inr (1, printf ''Cannot find solution!\<newline>'' g)) \<and>
            frontier initial_board (int (length (state_list g))) g)"
proof -
  let ?g0 = "\<lparr>state_list = [], states_in_list = {||}, stdout = ''Initial board state:\<newline>''\<rparr>"
  from Print_result[of "''  ''" initial_board None ?g0]
  obtain out where pr: "Print ''  '' initial_board None ?g0 =
      Inr \<lparr>state_list = [], states_in_list = {||}, stdout = out\<rparr>"
    by auto
  let ?g2 = "\<lparr>state_list = [], states_in_list = {||}, stdout = out\<rparr>"
  let ?g3 = "\<lparr>state_list = [(initial_board, - 1)], states_in_list = {|initial_board|}, stdout = out\<rparr>"
  have add: "CheckAddState initial_board (- 1) ?g2 = Inr ?g3"
    by (simp add: CheckAddState_def Let_def fcard_finsert_if)
  have inv3: "search_inv ?g3"
    using wf by (simp add: search_inv_def fcard_finsert_if)
  have "frontier initial_board 0 ?g3"
    using inv3 by (simp add: frontier_def)
  from search_ends[OF this]
  have "ends (\<lambda>g'. frontier initial_board (int (length (state_list g'))) g') (found initial_board)
      (search 0 ?g3)" by simp
  then consider g where "search 0 ?g3 = Some (Inr g)"
      "frontier initial_board (int (length (state_list g))) g"
    | w where "search 0 ?g3 = Some (Inl (Exited 0 w))" "found initial_board w"
    unfolding ends_def by blast
  then show ?thesis
  proof cases
    case 1
    then show ?thesis by (auto simp: main_def Let_def printf_def pr add)
  next
    case 2
    then show ?thesis by (auto simp: main_def Let_def printf_def pr add)
  qed
qed

lemma found_entry:
  assumes "found init w"
  shows "\<exists>k g2. k < length (state_list g2) \<and> (\<exists>new. state_list w = state_list g2 @ new) \<and>
      fst (state_list w ! 0) = init \<and>
      Cell (fst (state_list w ! k)) BOARD_EXIT_Y (BOARD_SIZE - 1) = Inr CHR '' '' \<and>
      Cell (fst (state_list w ! k)) BOARD_EXIT_Y (BOARD_SIZE - 2) = Inr CHR ''X'' \<and>
      Cell (fst (state_list w ! k)) BOARD_EXIT_Y (BOARD_SIZE - 3) = Inr CHR ''X'' \<and>
      CheckMove Scan_xminus (fst (state_list w ! k)) (BOARD_SIZE - 1) BOARD_EXIT_Y (int k) g2 =
        Some (Inl (Exited 0 w))"
proof -
  have n: "BOARD_SIZE - 1 = 5" "BOARD_EXIT_Y = 2" "BOARD_SIZE - 2 = 4" "BOARD_SIZE - 3 = 3"
    by (simp_all add: BOARD_SIZE_def BOARD_EXIT_Y_def)
  have ir: "in_range 2 5" "in_range 2 4" "in_range 2 3"
    by (simp_all add: in_range_def BOARD_SIZE_def)
  from assms obtain idx g0 s g2 new where ne: "state_list g0 \<noteq> []"
    and root: "fst (state_list g0 ! 0) = init"
    and ex: "exploring idx g0 (s, g2)" and e: "cell_at s 2 5 = CHR '' ''"
    and w: "wins Scan_xminus s 5 2"
    and cm: "CheckMove Scan_xminus s 5 2 idx g2 = Some (Inl (Exited 0 w))"
    and new: "state_list w = state_list g2 @ new"
    unfolding found_def won_def by blast
  from exploring_board[OF ex] have idx: "0 \<le> idx" "nat idx < length (state_list g2)"
    and s: "s = fst (state_list g2 ! nat idx)" by blast+
  from ex obtain new0 where new0: "state_list g2 = state_list g0 @ new0"
    by (auto simp: exploring_def)
  have sw: "fst (state_list w ! nat idx) = s"
    using idx(2) s by (simp add: new nth_append)
  have r: "fst (state_list w ! 0) = init"
    using ne root by (simp add: new new0 nth_append)
  from wins_exit[OF w] have pr: "probe Scan_xminus s 5 2" and x4: "cell_at s 2 4 = CHR ''X''"
    by blast+
  from pr x4 have x3: "cell_at s 2 3 = CHR ''X''" by (simp add: probe_def)
  have c: "Cell s 2 5 = Inr CHR '' ''" "Cell s 2 4 = Inr CHR ''X''" "Cell s 2 3 = Inr CHR ''X''"
    using e x4 x3 ir by (simp_all add: Cell_in_range)
  have k: "int (nat idx) = idx" using idx(1) by simp
  show ?thesis
    unfolding n
    apply (rule exI[of _ "nat idx"], rule exI[of _ g2])
    unfolding sw k
    using idx(2) new r c cm by blast
qed

lemma frontier_exhausted:
  assumes "frontier init (int (length (state_list g))) g"
  shows "state_list g \<noteq> [] \<and> fst (state_list g ! 0) = init \<and>
     (\<forall>k < length (state_list g).
        \<not> (Cell (fst (state_list g ! k)) BOARD_EXIT_Y (BOARD_SIZE - 1) = Inr CHR '' '' \<and>
           Cell (fst (state_list g ! k)) BOARD_EXIT_Y (BOARD_SIZE - 2) = Inr CHR ''X'' \<and>
           Cell (fst (state_list g ! k)) BOARD_EXIT_Y (BOARD_SIZE - 3) = Inr CHR ''X'') \<and>
        explore (int k) (fst (state_list g ! k), g) = Some (Inr (fst (state_list g ! k), g)))"
proof (intro conjI allI impI)
  from assms show "state_list g \<noteq> []" "fst (state_list g ! 0) = init"
    by (simp_all add: frontier_def)
next
  fix k assume k: "k < length (state_list g)"
  with assms have st: "settled (fst (state_list g ! k)) g"
    by (simp add: frontier_def)
  from assms k have wf: "wf_board (fst (state_list g ! k))"
    unfolding frontier_def search_inv_def by blast
  from settled_no_win[OF st]
  show "\<not> (Cell (fst (state_list g ! k)) BOARD_EXIT_Y (BOARD_SIZE - 1) = Inr CHR '' '' \<and>
           Cell (fst (state_list g ! k)) BOARD_EXIT_Y (BOARD_SIZE - 2) = Inr CHR ''X'' \<and>
           Cell (fst (state_list g ! k)) BOARD_EXIT_Y (BOARD_SIZE - 3) = Inr CHR ''X'')" .
  from settled_explore[OF wf st]
  show "explore (int k) (fst (state_list g ! k), g) = Some (Inr (fst (state_list g ! k), g))" .
qed

section \<open>Claims about the whole search\<close>

lemma for_loop_split:
  assumes "i \<le> k" "k \<le> n"
  shows "for_loop i n body a = bind_run (for_loop i k body a) (for_loop k n body)"
  using assms
proof (induction "nat (k - i)" arbitrary: i a)
  case 0
  then have "i = k" by simp
  then show ?case by (subst (2) for_loop.simps) simp
next
  case (Suc m)
  then have lt: "i < k" "i < n" by simp_all
  have m: "m = nat (k - (i + 1))" using Suc.hyps(2) by simp
  have i1: "i + 1 \<le> k" using lt by simp
  have IH: "for_loop (i + 1) n body a' = bind_run (for_loop (i + 1) k body a') (for_loop k n body)" for a'
    by (rule Suc.hyps(1)[OF m i1 Suc.prems(2)])
  have IH': "for_loop (i + 1) n body =
      (\<lambda>a'. bind_run (for_loop (i + 1) k body a') (for_loop k n body))"
    by (rule ext) (rule IH)
  have l: "for_loop i n body a = bind_run (body i a) (for_loop (i + 1) n body)"
    using lt by (subst for_loop.simps) simp
  have r: "for_loop i k body a = bind_run (body i a) (for_loop (i + 1) k body)"
    using lt by (subst for_loop.simps) simp
  show ?case
    unfolding l r bind_run_assoc by (subst IH') (rule refl)
qed

lemma CheckMove_xplus_last_column:
  "CheckMove Scan_xplus s 5 y idx_state g = Some (Inr (s, g))"
  by (simp add: CheckMove_def txty_on_board_def BOARD_SIZE_def)

text \<open>
  C5: entry \<open>idx\<close> is being explored; the rows before the exit row and the cells of the exit
  row before its last cell have been dealt with, and at the last cell of the exit row car
  \<open>X\<close> can move in. The board \<open>W\<close> with \<open>X\<close> moved into the last column has not been seen
  before, so the call registers it: it becomes the last entry of the list, with origin \<open>idx\<close>.
  Then the process ends with status 0 at once: this is the result of the call of
  \<^verbatim>\<open>CheckMove\<close>, of the scan of the cell, of the exploration of the entry and of the whole
  search from \<open>idx\<close> on, so neither the two other directions at that cell, nor the rows after
  it, nor any later entry has a part in it, and the list ends with \<open>W\<close>. What has been printed
  by then is one path, as the path reconstructor of the specification gives it: the boards
  from the root to entry \<open>idx\<close>, then \<open>W\<close>, numbered from 1.
\<close>

theorem search_stops_at_win:
  assumes inv: "search_inv g" and idx: "0 \<le> idx" "idx < int (length (state_list g))"
    and rows: "for_loop 0 BOARD_EXIT_Y (\<lambda>y. for_loop 0 BOARD_SIZE (check_cell idx y))
        (fst (state_list g ! nat idx),
         if idx mod 100 = 0
         then printf (''...explored '' @ string_of_int idx @ '' board states\<newline>'') g else g)
       = Some (Inr a1)"
    and cols: "for_loop 0 (BOARD_SIZE - 1) (check_cell idx BOARD_EXIT_Y) a1 = Some (Inr (s, g2))"
    and e: "Cell s BOARD_EXIT_Y (BOARD_SIZE - 1) = Inr CHR '' ''"
    and pr: "probe Scan_xminus s (BOARD_SIZE - 1) BOARD_EXIT_Y"
    and goal: "Cell s BOARD_EXIT_Y (BOARD_SIZE - 2) = Inr CHR ''X''"
    and novel: "slide Scan_xminus s (BOARD_SIZE - 1) BOARD_EXIT_Y |\<notin>| states_in_list g2"
  shows "\<exists>W g3 n w. W = slide Scan_xminus s (BOARD_SIZE - 1) BOARD_EXIT_Y \<and>
      Cell W BOARD_EXIT_Y (BOARD_SIZE - 1) = Inr CHR ''X'' \<and>
      s = fst (state_list g2 ! nat idx) \<and>
      g3 = g2\<lparr>states_in_list := finsert W (states_in_list g2),
               state_list := state_list g2 @ [(W, idx)]\<rparr> \<and>
      CheckAddState W idx g2 = Inr g3 \<and>
      spec_walk_back (state_list g3) (int (length (state_list g3)) - 1) =
        W # spec_walk_back (state_list g2) idx \<and>
      spec_reconstruct (int (length (state_list g3)) - 1) None g3 = Inr (n, w) \<and>
      n = int (length (spec_walk_back (state_list g2) idx)) + 1 \<and>
      state_list w = state_list g3 \<and> states_in_list w = states_in_list g3 \<and>
      CheckMove Scan_xminus s (BOARD_SIZE - 1) BOARD_EXIT_Y idx g2 = Some (Inl (Exited 0 w)) \<and>
      check_cell idx BOARD_EXIT_Y (BOARD_SIZE - 1) (s, g2) = Some (Inl (Exited 0 w)) \<and>
      explore idx (fst (state_list g ! nat idx),
         if idx mod 100 = 0
         then printf (''...explored '' @ string_of_int idx @ '' board states\<newline>'') g else g)
        = Some (Inl (Exited 0 w)) \<and>
      search idx g = Some (Inl (Exited 0 w))"
proof -
  have n: "BOARD_SIZE - 1 = 5" "BOARD_EXIT_Y = 2" "BOARD_SIZE - 2 = 4" "BOARD_SIZE = 6"
    by (simp_all add: BOARD_SIZE_def BOARD_EXIT_Y_def)
  let ?g1 = "if idx mod 100 = 0
         then printf (''...explored '' @ string_of_int idx @ '' board states\<newline>'') g else g"
  let ?s0 = "fst (state_list g ! nat idx)"
  let ?C = "\<lambda>y. check_cell idx y"
  let ?R = "\<lambda>y. for_loop 0 BOARD_SIZE (?C y)"
  have sl: "state_list ?g1 = state_list g" by (simp add: printf_def)
  have inv1: "search_inv ?g1" using inv by simp
  have ex0: "exploring idx ?g1 (?s0, ?g1)"
    unfolding exploring_def prod.case sl using inv1 idx by simp
  have start: "scanned idx ?g1 0 0 (?s0, ?g1)" by (rule scanned_start[OF ex0])
  have "ends (scanned idx ?g1 BOARD_EXIT_Y 0) (won idx ?g1) (for_loop 0 BOARD_EXIT_Y ?R (?s0, ?g1))"
    by (rule rows_ends[OF start]) (simp_all add: n)
  from ends_result[OF this rows] have sc1: "scanned idx ?g1 BOARD_EXIT_Y 0 a1" .
  have "ends (scanned idx ?g1 BOARD_EXIT_Y (BOARD_SIZE - 1)) (won idx ?g1)
      (for_loop 0 (BOARD_SIZE - 1) (?C BOARD_EXIT_Y) a1)"
    by (rule row_ends[OF _ _ sc1]) (simp_all add: n)
  from ends_result[OF this cols] have "scanned idx ?g1 BOARD_EXIT_Y (BOARD_SIZE - 1) (s, g2)" .
  then have ex2: "exploring idx ?g1 (s, g2)" by (rule scanned_exploring)
  from exploring_board[OF ex2] have wf: "wf_board s" and inv2: "search_inv g2"
    and s_idx: "s = fst (state_list g2 ! nat idx)" and idx2: "nat idx < length (state_list g2)"
    by blast+
  let ?W = "slide Scan_xminus s 5 2"
  let ?g3 = "g2\<lparr>states_in_list := finsert ?W (states_in_list g2),
               state_list := state_list g2 @ [(?W, idx)]\<rparr>"
  have ir4: "in_range 2 4" by (simp add: in_range_def BOARD_SIZE_def)
  have e': "cell_at s 2 5 = CHR '' ''" using e by (simp add: n Cell_in_range in_range_exit)
  have pr': "probe Scan_xminus s 5 2" using pr by (simp add: n)
  have goal': "cell_at s 2 4 = CHR ''X''" using goal by (simp add: n Cell_in_range ir4)
  have novel': "?W |\<notin>| states_in_list g2" using novel by (simp add: n)
  from exploring_register[OF ex2 wf_board_slide[OF wf] arrow_ok_slide[OF wf in_range_exit pr']]
  obtain g3 where g3: "CheckAddState ?W idx g2 = Inr g3" "exploring idx ?g1 (s, g3)" by blast
  have g3eq: "g3 = ?g3"
    using g3(1) novel' by (auto simp: CheckAddState_def Let_def split: if_splits)
  from exploring_board[OF g3(2)] have inv3: "search_inv g3" by blast
  then have parents3: "\<forall>k < length (state_list g3). snd (state_list g3 ! k) < int k"
    by (simp add: search_inv_def)
  from inv2 have parents2: "\<forall>k < length (state_list g2). snd (state_list g2 ! k) < int k"
    by (simp add: search_inv_def)
  have last: "int (length (state_list g3)) - 1 = int (length (state_list g2))"
    by (simp add: g3eq)
  have lt3: "int (length (state_list g3)) - 1 < int (length (state_list g3))" by simp
  from PrintSolutionRecursive_returns[OF inv3 lt3, of None]
  obtain k w where psr: "PrintSolutionRecursive (int (length (state_list g3)) - 1) None g3 = Some (Inr (k, w))"
    by auto
  from PrintSolutionRecursive_refines[OF parents3 lt3, of None] psr
  have rec: "spec_reconstruct (int (length (state_list g3)) - 1) None g3 = Inr (k, w)"
    by simp
  have chain: "spec_walk_back (state_list g3) (int (length (state_list g3)) - 1) =
      ?W # spec_walk_back (state_list g2) idx"
  proof -
    have "idx < int (length (state_list g2))" using idx2 idx(1) by simp
    from spec_walk_back_last[OF parents2 idx(1) this, of ?W] show ?thesis
      unfolding last by (simp add: g3eq)
  qed
  have count: "k = int (length (spec_walk_back (state_list g2) idx)) + 1"
    using spec_reconstruct_count[OF rec] chain by simp
  from PrintSolutionRecursive_result[OF psr] have slw: "state_list w = state_list g3"
    "states_in_list w = states_in_list g3"
    by (simp_all add: printed_def)
  have psq: "(PrintSolutionAndQuit g3 :: (Board \<times> globals) run) = Some (Inl (Exited 0 w))"
    by (simp add: PrintSolutionAndQuit_def psr)
  have cm: "CheckMove Scan_xminus s 5 2 idx g2 = Some (Inl (Exited 0 w))"
    using CheckMove_exit_goal[OF in_range_exit pr', of idx g2] goal' g3(1) psq
    by (simp add: n)
  have cc: "check_cell idx 2 5 (s, g2) = Some (Inl (Exited 0 w))"
    using e' by (simp add: check_cell_def Cell_in_range in_range_exit CheckMove_xplus_last_column cm)
  have row2: "?R 2 a1 = Some (Inl (Exited 0 w))"
  proof -
    have "?R 2 a1 = bind_run (for_loop 0 5 (?C 2) a1) (for_loop 5 6 (?C 2))"
      unfolding n by (rule for_loop_split) simp_all
    also have "for_loop 0 5 (?C 2) a1 = Some (Inr (s, g2))" using cols by (simp add: n)
    also have "bind_run (Some (Inr (s, g2))) (for_loop 5 6 (?C 2)) = Some (Inl (Exited 0 w))"
    proof -
      have "for_loop 5 6 (?C 2) (s, g2) = Some (Inl (Exited 0 w))"
        by (subst for_loop.simps) (simp add: cc)
      then show ?thesis by simp
    qed
    finally show ?thesis .
  qed
  have ex: "explore idx (?s0, ?g1) = Some (Inl (Exited 0 w))"
  proof -
    have "explore idx (?s0, ?g1) = bind_run (for_loop 0 2 ?R (?s0, ?g1)) (for_loop 2 6 ?R)"
      unfolding explore_def n by (rule for_loop_split) simp_all
    also have "for_loop 0 2 ?R (?s0, ?g1) = Some (Inr a1)" using rows by (simp add: n)
    also have "bind_run (Some (Inr a1)) (for_loop 2 6 ?R) = Some (Inl (Exited 0 w))"
    proof -
      have "for_loop 2 6 ?R a1 = Some (Inl (Exited 0 w))"
        by (subst for_loop.simps) (simp add: row2)
      then show ?thesis by simp
    qed
    finally show ?thesis .
  qed
  have se: "search idx g = Some (Inl (Exited 0 w))"
    using idx ex by (subst search.simps) (simp add: Let_def DEBUG_PROGRESS_OUTPUT_def)
  have W5: "Cell ?W 2 5 = Inr CHR ''X''"
  proof -
    from exit_lane_span[OF pr'] obtain tx where tx: "0 \<le> tx" "tx \<le> 3"
      "far_end Scan_xminus s 5 2 = (tx, 2)" by blast
    from slide_exit_cells[OF wf tx(3) tx(1,2) in_range_exit] tx(2) goal'
    show ?thesis by (simp add: Cell_in_range in_range_exit)
  qed
  have reg: "CheckAddState ?W idx g2 = Inr ?g3" using g3(1) g3eq by simp
  have rec': "spec_reconstruct (int (length (state_list ?g3)) - 1) None ?g3 = Inr (k, w)"
    using rec g3eq by simp
  have chain': "spec_walk_back (state_list ?g3) (int (length (state_list ?g3)) - 1) =
      ?W # spec_walk_back (state_list g2) idx"
    using chain g3eq by simp
  have slw': "state_list w = state_list ?g3" "states_in_list w = states_in_list ?g3"
    using slw g3eq by simp_all
  show ?thesis
    unfolding n(1,2,3)
    apply (rule exI[of _ ?W], rule exI[of _ ?g3], rule exI[of _ k], rule exI[of _ w])
    using W5 s_idx reg chain' rec' count slw' cm cc ex se by blast
qed


definition exit_open :: Board where
  "exit_open = [''AAABBB'', ''CDDEEE'', ''CFGXX '', ''HFGIII'', ''HJJKKK'', ''LLLMMM'']"

definition exit_open_start :: globals where
  "exit_open_start = \<lparr>state_list = [(exit_open, - 1)], states_in_list = {|exit_open|}, stdout = []\<rparr>"

theorem search_stops_at_win_witness:
  "Cell exit_open BOARD_EXIT_Y (BOARD_SIZE - 1) = Inr CHR '' '' \<and>
   probe Scan_xminus exit_open (BOARD_SIZE - 1) BOARD_EXIT_Y \<and>
   Cell exit_open BOARD_EXIT_Y (BOARD_SIZE - 2) = Inr CHR ''X'' \<and>
   slide Scan_xminus exit_open (BOARD_SIZE - 1) BOARD_EXIT_Y |\<notin>|
     states_in_list (printf ''...explored 0 board states\<newline>'' exit_open_start) \<and>
   slide Scan_xminus exit_open (BOARD_SIZE - 1) BOARD_EXIT_Y =
     [''AAABBB'', ''CDDEEE'', ''CFG XX'', ''HFGIII'', ''HJJKKK'', ''LLLMMM''] \<and>
   (\<exists>W g3 n w. W = slide Scan_xminus exit_open (BOARD_SIZE - 1) BOARD_EXIT_Y \<and>
      Cell W BOARD_EXIT_Y (BOARD_SIZE - 1) = Inr CHR ''X'' \<and>
      g3 = (printf ''...explored 0 board states\<newline>'' exit_open_start)
             \<lparr>states_in_list := finsert W (states_in_list
                 (printf ''...explored 0 board states\<newline>'' exit_open_start)),
               state_list := state_list (printf ''...explored 0 board states\<newline>'' exit_open_start)
                 @ [(W, 0)]\<rparr> \<and>
      CheckAddState W 0 (printf ''...explored 0 board states\<newline>'' exit_open_start) = Inr g3 \<and>
      spec_walk_back (state_list g3) (int (length (state_list g3)) - 1) =
        W # spec_walk_back (state_list (printf ''...explored 0 board states\<newline>'' exit_open_start)) 0 \<and>
      spec_reconstruct (int (length (state_list g3)) - 1) None g3 = Inr (n, w) \<and>
      n = int (length (spec_walk_back
            (state_list (printf ''...explored 0 board states\<newline>'' exit_open_start)) 0)) + 1 \<and>
      state_list w = state_list g3 \<and>
      CheckMove Scan_xminus exit_open (BOARD_SIZE - 1) BOARD_EXIT_Y 0
        (printf ''...explored 0 board states\<newline>'' exit_open_start) = Some (Inl (Exited 0 w)) \<and>
      search 0 exit_open_start = Some (Inl (Exited 0 w)))"
proof -
  let ?g1 = "printf ''...explored 0 board states\<newline>'' exit_open_start"
  have inv: "search_inv exit_open_start"
    by (simp add: search_inv_def exit_open_start_def fcard_finsert_if)
       (simp add: exit_open_def wf_board_def BOARD_SIZE_def)
  have idx: "(0::int) \<le> 0" "0 < int (length (state_list exit_open_start))"
    by (simp_all add: exit_open_start_def)
  have s0: "string_of_int 0 = ''0''" by code_simp
  have g1: "(if (0::int) mod 100 = 0
         then printf (''...explored '' @ string_of_int 0 @ '' board states\<newline>'') exit_open_start
         else exit_open_start) = ?g1" by (simp add: s0)
  have b0: "fst (state_list exit_open_start ! nat 0) = exit_open" by (simp add: exit_open_start_def)
  have rows: "for_loop 0 BOARD_EXIT_Y (\<lambda>y. for_loop 0 BOARD_SIZE (check_cell 0 y))
        (fst (state_list exit_open_start ! nat 0),
         if (0::int) mod 100 = 0
         then printf (''...explored '' @ string_of_int 0 @ '' board states\<newline>'') exit_open_start
         else exit_open_start)
       = Some (Inr (exit_open, ?g1))"
    unfolding g1 b0 by code_simp
  have cols: "for_loop 0 (BOARD_SIZE - 1) (check_cell 0 BOARD_EXIT_Y) (exit_open, ?g1)
       = Some (Inr (exit_open, ?g1))"
    by code_simp
  have e: "Cell exit_open BOARD_EXIT_Y (BOARD_SIZE - 1) = Inr CHR '' ''" by code_simp
  have pr: "probe Scan_xminus exit_open (BOARD_SIZE - 1) BOARD_EXIT_Y" by code_simp
  have goal: "Cell exit_open BOARD_EXIT_Y (BOARD_SIZE - 2) = Inr CHR ''X''" by code_simp
  have W: "slide Scan_xminus exit_open (BOARD_SIZE - 1) BOARD_EXIT_Y =
     [''AAABBB'', ''CDDEEE'', ''CFG XX'', ''HFGIII'', ''HJJKKK'', ''LLLMMM'']" by code_simp
  have novel: "slide Scan_xminus exit_open (BOARD_SIZE - 1) BOARD_EXIT_Y |\<notin>| states_in_list ?g1"
    unfolding W by (simp add: printf_def exit_open_start_def exit_open_def)
  from search_stops_at_win [OF inv idx rows cols e pr goal novel] e pr goal novel W
  show ?thesis by blast
qed

text \<open>
  C6: for every board of the right size \<^verbatim>\<open>main\<close> ends, in one of two ways, and no assertion
  fails and no index is out of range on the way.

  Either the process leaves with status 0. It does so from the call of \<^verbatim>\<open>CheckMove\<close> that
  scans from the last cell of the exit row on the board of an entry \<open>k\<close> of the list, and on
  that board the cell is empty and \<open>X\<close> stands in the two cells before it: a board on which
  \<open>X\<close> can drive out has been found.

  Or \<^verbatim>\<open>main\<close> prints \<open>Cannot find solution!\<close> last and returns 1. Then the loop has run off
  the end of the list: on no board of the list can \<open>X\<close> drive out, and exploring any entry
  once more returns with the list as it is, so that every board one move away from a board
  of the list is in the list.

  In both cases the list starts with the initial board. The two ways differ in the status,
  0 or 1.
\<close>

theorem main_exits_0_or_returns_1:
  assumes wf: "wf_board initial_board"
  shows "(\<exists>w k g2. main initial_board = Some (Inl (Exited 0 w)) \<and>
            k < length (state_list g2) \<and> (\<exists>new. state_list w = state_list g2 @ new) \<and>
            fst (state_list w ! 0) = initial_board \<and>
            Cell (fst (state_list w ! k)) BOARD_EXIT_Y (BOARD_SIZE - 1) = Inr CHR '' '' \<and>
            Cell (fst (state_list w ! k)) BOARD_EXIT_Y (BOARD_SIZE - 2) = Inr CHR ''X'' \<and>
            Cell (fst (state_list w ! k)) BOARD_EXIT_Y (BOARD_SIZE - 3) = Inr CHR ''X'' \<and>
            CheckMove Scan_xminus (fst (state_list w ! k)) (BOARD_SIZE - 1) BOARD_EXIT_Y (int k) g2 =
              Some (Inl (Exited 0 w))) \<or>
         (\<exists>g. main initial_board = Some (Inr (1, printf ''Cannot find solution!\<newline>'' g)) \<and>
            state_list g \<noteq> [] \<and> fst (state_list g ! 0) = initial_board \<and>
            (\<forall>k < length (state_list g).
               \<not> (Cell (fst (state_list g ! k)) BOARD_EXIT_Y (BOARD_SIZE - 1) = Inr CHR '' '' \<and>
                  Cell (fst (state_list g ! k)) BOARD_EXIT_Y (BOARD_SIZE - 2) = Inr CHR ''X'' \<and>
                  Cell (fst (state_list g ! k)) BOARD_EXIT_Y (BOARD_SIZE - 3) = Inr CHR ''X'') \<and>
               explore (int k) (fst (state_list g ! k), g) =
                 Some (Inr (fst (state_list g ! k), g))))"
proof -
  from main_ends[OF wf] show ?thesis
  proof
    assume "\<exists>w. main initial_board = Some (Inl (Exited 0 w)) \<and> found initial_board w"
    then obtain w where w: "main initial_board = Some (Inl (Exited 0 w))" "found initial_board w"
      by blast
    from found_entry[OF w(2)] w(1) show ?thesis by blast
  next
    assume "\<exists>g. main initial_board = Some (Inr (1, printf ''Cannot find solution!\<newline>'' g)) \<and>
            frontier initial_board (int (length (state_list g))) g"
    then obtain g where g: "main initial_board = Some (Inr (1, printf ''Cannot find solution!\<newline>'' g))"
      "frontier initial_board (int (length (state_list g))) g"
      by blast
    from frontier_exhausted[OF g(2)] g(1) show ?thesis by blast
  qed
qed

definition boxed_in :: Board where
  "boxed_in = [''AAABBB'', ''CDDEEE'', ''CFGXXN'', ''HFGIIN'', ''HJJKKK'', ''LLLMMM'']"

theorem main_exits_0_or_returns_1_witness:
  "wf_board exit_open \<and> wf_board boxed_in \<and>
   main exit_open = Some (Inl (Exited 0
     \<lparr>state_list = [(exit_open, - 1),
                     ([''AAABBB'', ''CDDEEE'', ''CFG XX'', ''HFGIII'', ''HJJKKK'', ''LLLMMM''], 0)],
      states_in_list = {|[''AAABBB'', ''CDDEEE'', ''CFG XX'', ''HFGIII'', ''HJJKKK'', ''LLLMMM''],
                         exit_open|},
      stdout = ''Initial board state:\<newline>  AAABBB\<newline>  CDDEEE\<newline>  CFGXX \<newline>  HFGIII\<newline>  HJJKKK\<newline>  LLLMMM\<newline>...explored 0 board states\<newline>Solution step 1\<newline>  AAABBB\<newline>  CDDEEE\<newline>  CFGXX>\<newline>  HFGIII\<newline>  HJJKKK\<newline>  LLLMMM\<newline>\<newline>Solution step 2\<newline>  AAABBB\<newline>  CDDEEE\<newline>  CFG XX\<newline>  HFGIII\<newline>  HJJKKK\<newline>  LLLMMM\<newline>\<newline>''\<rparr>)) \<and>
   main boxed_in = Some (Inr (1,
     \<lparr>state_list = [(boxed_in, - 1)], states_in_list = {|boxed_in|},
      stdout = ''Initial board state:\<newline>  AAABBB\<newline>  CDDEEE\<newline>  CFGXXN\<newline>  HFGIIN\<newline>  HJJKKK\<newline>  LLLMMM\<newline>...explored 0 board states\<newline>Cannot find solution!\<newline>''\<rparr>)) \<and>
   (\<exists>w k g2. main exit_open = Some (Inl (Exited 0 w)) \<and>
      k < length (state_list g2) \<and> (\<exists>new. state_list w = state_list g2 @ new) \<and>
      fst (state_list w ! 0) = exit_open \<and>
      Cell (fst (state_list w ! k)) BOARD_EXIT_Y (BOARD_SIZE - 1) = Inr CHR '' '' \<and>
      Cell (fst (state_list w ! k)) BOARD_EXIT_Y (BOARD_SIZE - 2) = Inr CHR ''X'' \<and>
      Cell (fst (state_list w ! k)) BOARD_EXIT_Y (BOARD_SIZE - 3) = Inr CHR ''X'' \<and>
      CheckMove Scan_xminus (fst (state_list w ! k)) (BOARD_SIZE - 1) BOARD_EXIT_Y (int k) g2 =
        Some (Inl (Exited 0 w))) \<and>
   (\<exists>g. main boxed_in = Some (Inr (1, printf ''Cannot find solution!\<newline>'' g)) \<and>
      state_list g \<noteq> [] \<and> fst (state_list g ! 0) = boxed_in \<and>
      explore 0 (fst (state_list g ! 0), g) = Some (Inr (fst (state_list g ! 0), g)))"
proof -
  have h1: "wf_board exit_open" by code_simp
  have h2: "wf_board boxed_in" by code_simp
  have v1: "main exit_open = Some (Inl (Exited 0
     \<lparr>state_list = [(exit_open, - 1),
                     ([''AAABBB'', ''CDDEEE'', ''CFG XX'', ''HFGIII'', ''HJJKKK'', ''LLLMMM''], 0)],
      states_in_list = {|[''AAABBB'', ''CDDEEE'', ''CFG XX'', ''HFGIII'', ''HJJKKK'', ''LLLMMM''],
                         exit_open|},
      stdout = ''Initial board state:\<newline>  AAABBB\<newline>  CDDEEE\<newline>  CFGXX \<newline>  HFGIII\<newline>  HJJKKK\<newline>  LLLMMM\<newline>...explored 0 board states\<newline>Solution step 1\<newline>  AAABBB\<newline>  CDDEEE\<newline>  CFGXX>\<newline>  HFGIII\<newline>  HJJKKK\<newline>  LLLMMM\<newline>\<newline>Solution step 2\<newline>  AAABBB\<newline>  CDDEEE\<newline>  CFG XX\<newline>  HFGIII\<newline>  HJJKKK\<newline>  LLLMMM\<newline>\<newline>''\<rparr>))"
    by code_simp
  have v2: "main boxed_in = Some (Inr (1,
     \<lparr>state_list = [(boxed_in, - 1)], states_in_list = {|boxed_in|},
      stdout = ''Initial board state:\<newline>  AAABBB\<newline>  CDDEEE\<newline>  CFGXXN\<newline>  HFGIIN\<newline>  HJJKKK\<newline>  LLLMMM\<newline>...explored 0 board states\<newline>Cannot find solution!\<newline>''\<rparr>))"
    by code_simp
  have n1: "\<And>g. main exit_open \<noteq> Some (Inr (1, g))" unfolding v1 by simp
  have n2: "\<And>w. main boxed_in \<noteq> Some (Inl (Exited 0 w))" unfolding v2 by simp
  from main_exits_0_or_returns_1 [OF h1] n1
  have a: "\<exists>w k g2. main exit_open = Some (Inl (Exited 0 w)) \<and>
      k < length (state_list g2) \<and> (\<exists>new. state_list w = state_list g2 @ new) \<and>
      fst (state_list w ! 0) = exit_open \<and>
      Cell (fst (state_list w ! k)) BOARD_EXIT_Y (BOARD_SIZE - 1) = Inr CHR '' '' \<and>
      Cell (fst (state_list w ! k)) BOARD_EXIT_Y (BOARD_SIZE - 2) = Inr CHR ''X'' \<and>
      Cell (fst (state_list w ! k)) BOARD_EXIT_Y (BOARD_SIZE - 3) = Inr CHR ''X'' \<and>
      CheckMove Scan_xminus (fst (state_list w ! k)) (BOARD_SIZE - 1) BOARD_EXIT_Y (int k) g2 =
        Some (Inl (Exited 0 w))"
    by blast
  from main_exits_0_or_returns_1 [OF h2] n2
  obtain g where g: "main boxed_in = Some (Inr (1, printf ''Cannot find solution!\<newline>'' g))"
    "state_list g \<noteq> []" "fst (state_list g ! 0) = boxed_in"
    "\<forall>k < length (state_list g).
        explore (int k) (fst (state_list g ! k), g) = Some (Inr (fst (state_list g ! k), g))"
    by blast
  from g(2) have "0 < length (state_list g)" by simp
  with g(4) have "explore (int 0) (fst (state_list g ! 0), g) = Some (Inr (fst (state_list g ! 0), g))"
    by blast
  then have b: "explore 0 (fst (state_list g ! 0), g) = Some (Inr (fst (state_list g ! 0), g))"
    by simp
  from h1 h2 v1 v2 a g(1,2,3) b show ?thesis by blast
qed

definition at_exit :: Board where
  "at_exit = [''AAABBB'', ''CDDEEE'', ''CFG XX'', ''HFGIII'', ''HJJKKK'', ''LLLMMM'']"

text \<open>
  C1 fails on a board on which \<open>X\<close> already stands in the last column of the exit row.
  On \<open>at_exit\<close> the only car that can move is \<open>X\<close>. The search moves it one cell to the left,
  then back; the board that results is the initial one, so \<^verbatim>\<open>CheckAddState\<close> adds nothing
  (the source comments that call with "This should always succeed!"), and
  \<^verbatim>\<open>PrintSolutionAndQuit\<close> prints the chain of the last entry of the list, which is the board
  with \<open>X\<close> moved away from the exit. The process leaves with status 0 after printing two
  steps whose last board has \<open>X\<close> in columns 3 and 4 and the last column empty.
\<close>

theorem goal_car_at_exit_prints_no_solution:
  "main at_exit = Some (Inl (Exited 0
     \<lparr>state_list = [(at_exit, - 1),
                     ([''AAABBB'', ''CDDEEE'', ''CFGXX '', ''HFGIII'', ''HJJKKK'', ''LLLMMM''], 0)],
      states_in_list = {|[''AAABBB'', ''CDDEEE'', ''CFGXX '', ''HFGIII'', ''HJJKKK'', ''LLLMMM''],
                         at_exit|},
      stdout = ''Initial board state:\<newline>  AAABBB\<newline>  CDDEEE\<newline>  CFG XX\<newline>  HFGIII\<newline>  HJJKKK\<newline>  LLLMMM\<newline>...explored 0 board states\<newline>Solution step 1\<newline>  AAABBB\<newline>  CDDEEE\<newline>  CFG<XX\<newline>  HFGIII\<newline>  HJJKKK\<newline>  LLLMMM\<newline>\<newline>Solution step 2\<newline>  AAABBB\<newline>  CDDEEE\<newline>  CFGXX \<newline>  HFGIII\<newline>  HJJKKK\<newline>  LLLMMM\<newline>\<newline>''\<rparr>))"
  by code_simp

end
